theory Spec2Isabelle
  imports Main "HOL-Library.Signed_Division" "HOL-Library.Multiset"
begin

section \<open>Constants and data of Main.c\<close>

definition GRID_WIDTH :: int where "GRID_WIDTH = 20"
definition GRID_HEIGHT :: int where "GRID_HEIGHT = 15"
definition CELL_SIZE :: int where "CELL_SIZE = 40"
definition K_PATHS :: nat where "K_PATHS = 5"
definition INT_MAX :: int where "INT_MAX = 2147483647"

text \<open>Capacity of the arrays \<^verbatim>\<open>nodes\<close>, \<^verbatim>\<open>reverse_path\<close> and \<^verbatim>\<open>Path.points\<close>:
  \<^verbatim>\<open>GRID_WIDTH * GRID_HEIGHT\<close> entries.\<close>

definition CAPACITY :: nat where "CAPACITY = nat (GRID_WIDTH * GRID_HEIGHT)"

datatype CellType =
  CELL_EMPTY | CELL_WALL | CELL_START | CELL_END
  | CELL_PATH_1 | CELL_PATH_2 | CELL_PATH_3 | CELL_PATH_4 | CELL_PATH_5

text \<open>\<^verbatim>\<open>struct Point { int x, y; }\<close>. The fields are called \<open>px\<close> and \<open>py\<close>.\<close>

record Point =
  px :: int
  py :: int

text \<open>\<^verbatim>\<open>struct Node { Point pos; int cost; }\<close>: an entry of the frontier array.\<close>

record Node =
  pos :: Point
  cost :: int

text \<open>\<^verbatim>\<open>struct Path { Point points[...]; int length; int cost; }\<close>. Only the first
  \<^verbatim>\<open>length\<close> entries of \<^verbatim>\<open>points\<close> are ever written or read; the list holds those.\<close>

record Path =
  points :: "Point list"
  path_length :: int
  path_cost :: int

text \<open>The global variables. The two-dimensional arrays \<^verbatim>\<open>grid[y][x]\<close> and
  \<^verbatim>\<open>grid_path_type[y][x]\<close> are indexed by the coordinate pair; every access is guarded by
  an explicit bounds test, and an access outside the array is an error of the model.
  The global \<^verbatim>\<open>end\<close> is called \<open>end_pt\<close>.\<close>

record State =
  grid :: "Point \<Rightarrow> CellType"
  grid_path_type :: "Point \<Rightarrow> CellType"
  start :: Point
  end_pt :: Point
  start_selected :: bool
  end_selected :: bool
  paths_found_and_drawn :: bool

text \<open>What the C program leaves undefined: an array access outside its bounds.\<close>

datatype error =
  GridIndexOutOfBounds
  | NodesOverflow
  | ReversePathOverflow

definition in_bounds :: "Point \<Rightarrow> bool" where
  "in_bounds p \<longleftrightarrow> px p \<ge> 0 \<and> px p < GRID_WIDTH \<and> py p \<ge> 0 \<and> py p < GRID_HEIGHT"

definition mk_point :: "int \<Rightarrow> int \<Rightarrow> Point" where
  "mk_point a b = \<lparr>px = a, py = b\<rparr>"

section \<open>The grid\<close>

text \<open>\<^verbatim>\<open>initialize_grid\<close>: the outcome of \<^verbatim>\<open>rand() % 4 == 0\<close> at each cell is the
  parameter \<open>walls\<close>.\<close>

definition initialize_grid :: "(Point \<Rightarrow> bool) \<Rightarrow> State \<Rightarrow> State" where
  "initialize_grid walls s =
     s\<lparr>grid := (\<lambda>p. if in_bounds p then (if walls p then CELL_WALL else CELL_EMPTY)
                     else grid s p),
       grid_path_type := (\<lambda>p. if in_bounds p then CELL_EMPTY else grid_path_type s p),
       start := mk_point (-1) (-1),
       end_pt := mk_point (-1) (-1),
       start_selected := False,
       end_selected := False,
       paths_found_and_drawn := False\<rparr>"

definition screen_to_grid :: "int \<Rightarrow> int \<Rightarrow> Point" where
  "screen_to_grid screen_x screen_y =
     \<lparr>px = screen_x sdiv CELL_SIZE, py = screen_y sdiv CELL_SIZE\<rparr>"

definition is_valid_position :: "State \<Rightarrow> int \<Rightarrow> int \<Rightarrow> bool" where
  "is_valid_position s a b \<longleftrightarrow>
     a \<ge> 0 \<and> a < GRID_WIDTH \<and> b \<ge> 0 \<and> b < GRID_HEIGHT \<and>
     grid s (mk_point a b) \<noteq> CELL_WALL \<and>
     grid_path_type s (mk_point a b) = CELL_EMPTY"

section \<open>The search\<close>

text \<open>The local arrays of \<^verbatim>\<open>dijkstra_find_path\<close>; \<^verbatim>\<open>node_count\<close> is the length of
  \<open>nodes\<close>.\<close>

record Search =
  dist :: "Point \<Rightarrow> int"
  visited :: "Point \<Rightarrow> bool"
  parent :: "Point \<Rightarrow> Point"
  nodes :: "Node list"

definition dx :: "int list" where "dx = [0, 1, 0, -1]"
definition dy :: "int list" where "dy = [-1, 0, 1, 0]"

text \<open>The linear scan for the entry of minimum cost: the first of the minimal entries wins.\<close>

definition find_min_index :: "Node list \<Rightarrow> nat" where
  "find_min_index ns =
     fold (\<lambda>i min_index. if cost (ns ! i) < cost (ns ! min_index) then i else min_index)
          [1..<length ns] 0"

text \<open>\<^verbatim>\<open>nodes[min_index] = nodes[--node_count]\<close>\<close>

definition remove_node :: "Node list \<Rightarrow> nat \<Rightarrow> Node list" where
  "remove_node ns min_index = butlast (ns[min_index := last ns])"

text \<open>One pass of the neighbour loop, for direction \<open>i\<close>, from the cell \<open>c\<close> being expanded.
  The C integers are modelled by \<open>int\<close>; the only arithmetic is \<^verbatim>\<open>dist[cy][cx] + 1\<close>, which
  stays below \<open>INT_MAX\<close> (lemma \<open>mid_discovered_c\<close>).\<close>

definition relax :: "State \<Rightarrow> Point \<Rightarrow> nat \<Rightarrow> Search \<Rightarrow> error + Search" where
  "relax g c i s =
     (let nx = px c + dx ! i;
          ny = py c + dy ! i;
          n = mk_point nx ny;
          is_neighbor_end = (nx = px (end_pt g) \<and> ny = py (end_pt g))
      in if \<not> is_neighbor_end \<and> \<not> is_valid_position g nx ny then Inr s
         else if \<not> in_bounds n then Inl GridIndexOutOfBounds
         else if visited s n then Inr s
         else let new_cost = dist s c + 1
              in if new_cost < dist s n then
                   (if length (nodes s) \<ge> CAPACITY then Inl NodesOverflow
                    else Inr (s\<lparr>dist := (dist s)(n := new_cost),
                                 parent := (parent s)(n := c),
                                 nodes := nodes s @ [\<lparr>pos = n, cost = new_cost\<rparr>]\<rparr>))
                 else Inr s)"

text \<open>The neighbour loop \<^verbatim>\<open>for (int i = 0; i < 4; i++)\<close> over a list of directions.\<close>

fun explore :: "State \<Rightarrow> Point \<Rightarrow> nat list \<Rightarrow> Search \<Rightarrow> error + Search" where
  "explore g c [] s = Inr s"
| "explore g c (i # is) s =
     (case relax g c i s of Inl e \<Rightarrow> Inl e | Inr s' \<Rightarrow> explore g c is s')"

definition unvisited_count :: "Search \<Rightarrow> nat" where
  "unvisited_count s = card {p. in_bounds p \<and> \<not> visited s p}"

lemma in_bounds_set_eq:
  "{p. in_bounds p} =
     (\<lambda>(a, b). mk_point a b) ` ({0..<GRID_WIDTH} \<times> {0..<GRID_HEIGHT})"
proof (rule set_eqI)
  fix p :: Point
  show "p \<in> {p. in_bounds p} \<longleftrightarrow>
      p \<in> (\<lambda>(a, b). mk_point a b) ` ({0..<GRID_WIDTH} \<times> {0..<GRID_HEIGHT})"
  proof
    assume "p \<in> {p. in_bounds p}"
    then have "(px p, py p) \<in> {0..<GRID_WIDTH} \<times> {0..<GRID_HEIGHT}"
      by (simp add: in_bounds_def)
    moreover have "p = (\<lambda>(a, b). mk_point a b) (px p, py p)"
      by (simp add: mk_point_def)
    ultimately show "p \<in> (\<lambda>(a, b). mk_point a b) ` ({0..<GRID_WIDTH} \<times> {0..<GRID_HEIGHT})"
      by (rule rev_image_eqI)
  next
    assume "p \<in> (\<lambda>(a, b). mk_point a b) ` ({0..<GRID_WIDTH} \<times> {0..<GRID_HEIGHT})"
    then show "p \<in> {p. in_bounds p}"
      by (auto simp: in_bounds_def mk_point_def)
  qed
qed

lemma finite_in_bounds: "finite {p. in_bounds p}"
  unfolding in_bounds_set_eq by simp

lemma card_in_bounds: "card {p. in_bounds p} = CAPACITY"
proof -
  have "inj_on (\<lambda>(a, b). mk_point a b) ({0..<GRID_WIDTH} \<times> {0..<GRID_HEIGHT})"
    by (auto simp: inj_on_def mk_point_def)
  then have "card {p. in_bounds p} = card ({0..<GRID_WIDTH} \<times> {0..<GRID_HEIGHT})"
    unfolding in_bounds_set_eq by (rule card_image)
  also have "\<dots> = CAPACITY"
    by (simp add: CAPACITY_def GRID_WIDTH_def GRID_HEIGHT_def)
  finally show ?thesis .
qed

lemma relax_visited: "relax g c i s = Inr s' \<Longrightarrow> visited s' = visited s"
  by (auto simp: relax_def Let_def split: if_splits)

lemma explore_visited: "explore g c is s = Inr s' \<Longrightarrow> visited s' = visited s"
proof (induction "is" arbitrary: s)
  case Nil
  then show ?case by simp
next
  case (Cons i "is")
  then show ?case
    by (auto split: sum.splits dest: relax_visited)
qed

lemma unvisited_count_mark:
  assumes "in_bounds c" and "\<not> visited s c"
  shows "card {p. in_bounds p \<and> \<not> ((visited s)(c := True)) p}
           < card {p. in_bounds p \<and> \<not> visited s p}"
proof (rule psubset_card_mono)
  show "finite {p. in_bounds p \<and> \<not> visited s p}"
    using finite_in_bounds by simp
  show "{p. in_bounds p \<and> \<not> ((visited s)(c := True)) p} \<subset> {p. in_bounds p \<and> \<not> visited s p}"
    using assms by auto
qed

text \<open>The \<^verbatim>\<open>while (node_count > 0)\<close> loop. It returns \<^verbatim>\<open>current\<close> when the loop is left
  through \<^verbatim>\<open>break\<close> (\<^verbatim>\<open>path_found\<close>), and nothing when the frontier runs empty.\<close>

function dijkstra_loop :: "State \<Rightarrow> Search \<Rightarrow> error + (Node option \<times> Search)" where
  "dijkstra_loop g s =
     (if nodes s = [] then Inr (None, s)
      else
        let min_index = find_min_index (nodes s);
            current = nodes s ! min_index;
            s0 = s\<lparr>nodes := remove_node (nodes s) min_index\<rparr>;
            c = pos current
        in if \<not> in_bounds c then Inl GridIndexOutOfBounds
           else if visited s0 c then dijkstra_loop g s0
           else
             let s1 = s0\<lparr>visited := (visited s0)(c := True)\<rparr>
             in if px c = px (end_pt g) \<and> py c = py (end_pt g) then Inr (Some current, s1)
                else (case explore g c [0..<4] s1 of
                        Inl e \<Rightarrow> Inl e
                      | Inr s2 \<Rightarrow> dijkstra_loop g s2))"
  by pat_completeness auto
termination
proof (relation "measures [\<lambda>(g, s). unvisited_count s, \<lambda>(g, s). length (nodes s)]", goal_cases)
  case 1
  show ?case by simp
next
  case (2 g s mi cur s0 c)
  then show ?case
    by (simp add: unvisited_count_def remove_node_def)
next
  case (3 g s mi cur s0 c s1 s2)
  then show ?case
    using unvisited_count_mark[of c s] explore_visited[of g c "[0..<4]" s1 s2]
    by (simp add: unvisited_count_def)
qed

declare dijkstra_loop.simps [simp del]

text \<open>Path reconstruction: the \<^verbatim>\<open>while (at.x != -1 && at.y != -1)\<close> loop filling
  \<^verbatim>\<open>reverse_path\<close>; \<open>acc\<close> holds \<^verbatim>\<open>reverse_path[0..path_len)\<close> .\<close>

function walk_back :: "State \<Rightarrow> (Point \<Rightarrow> Point) \<Rightarrow> Point \<Rightarrow> Point list \<Rightarrow> error + Point list" where
  "walk_back g par at acc =
     (if px at \<noteq> -1 \<and> py at \<noteq> -1 then
        (if length acc \<ge> CAPACITY then Inl ReversePathOverflow
         else if px at = px (start g) \<and> py at = py (start g) then Inr (acc @ [at])
         else if \<not> in_bounds at then Inl GridIndexOutOfBounds
         else walk_back g par (par at) (acc @ [at]))
      else Inr acc)"
  by pat_completeness auto
termination
  by (relation "measure (\<lambda>(g, par, at, acc). CAPACITY - length acc)") auto

declare walk_back.simps [simp del]

definition init_search :: "State \<Rightarrow> Search" where
  "init_search g =
     \<lparr>dist = (\<lambda>p. INT_MAX)(start g := 0),
      visited = (\<lambda>p. False),
      parent = (\<lambda>p. mk_point (-1) (-1)),
      nodes = [\<lparr>pos = start g, cost = 0\<rparr>]\<rparr>"

text \<open>The states one invocation of the search passes through, as a step relation over the
  same functions as \<open>dijkstra_loop\<close>: \<open>at_head g s\<close> holds when the \<^verbatim>\<open>while\<close> loop tests its
  condition in state \<open>s\<close>, and \<open>expanding g c k s\<close> when the neighbour loop of the popped cell
  \<open>c\<close> is about to handle direction \<open>k\<close>.\<close>

inductive at_head :: "State \<Rightarrow> Search \<Rightarrow> bool"
  and expanding :: "State \<Rightarrow> Point \<Rightarrow> nat \<Rightarrow> Search \<Rightarrow> bool" where
  head_init: "in_bounds (start g) \<Longrightarrow> at_head g (init_search g)"
| head_stale: "at_head g s \<Longrightarrow> nodes s \<noteq> [] \<Longrightarrow>
     c = pos (nodes s ! find_min_index (nodes s)) \<Longrightarrow> in_bounds c \<Longrightarrow> visited s c \<Longrightarrow>
     at_head g (s\<lparr>nodes := remove_node (nodes s) (find_min_index (nodes s))\<rparr>)"
| expand_pop: "at_head g s \<Longrightarrow> nodes s \<noteq> [] \<Longrightarrow>
     c = pos (nodes s ! find_min_index (nodes s)) \<Longrightarrow> in_bounds c \<Longrightarrow> \<not> visited s c \<Longrightarrow>
     c \<noteq> end_pt g \<Longrightarrow>
     expanding g c 0 (s\<lparr>nodes := remove_node (nodes s) (find_min_index (nodes s)),
                         visited := (visited s)(c := True)\<rparr>)"
| expand_step: "expanding g c k s \<Longrightarrow> k < 4 \<Longrightarrow> relax g c k s = Inr s' \<Longrightarrow>
     expanding g c (Suc k) s'"
| head_next: "expanding g c 4 s \<Longrightarrow> at_head g s"

definition no_path :: Path where
  "no_path = \<lparr>points = [], path_length = 0, path_cost = -1\<rparr>"

text \<open>The body of \<^verbatim>\<open>dijkstra_find_path\<close> after the test of the source cell.\<close>

definition run_search :: "State \<Rightarrow> error + Path" where
  "run_search g =
     (if \<not> in_bounds (start g) then Inl GridIndexOutOfBounds
      else case dijkstra_loop g (init_search g) of
             Inl e \<Rightarrow> Inl e
           | Inr (None, s) \<Rightarrow> Inr no_path
           | Inr (Some current, s) \<Rightarrow>
               (case walk_back g (parent s) (end_pt g) [] of
                  Inl e \<Rightarrow> Inl e
                | Inr reverse_path \<Rightarrow>
                    Inr \<lparr>points = map (\<lambda>i. reverse_path ! (length reverse_path - 1 - i))
                                      [0..<length reverse_path],
                         path_length = int (length reverse_path),
                         path_cost = cost current\<rparr>))"

text \<open>\<^verbatim>\<open>dijkstra_find_path\<close>. With an invalid source the function returns the empty result,
  unless the sink is invalid too and carries a rank label: then the empty branch of the inner
  \<^verbatim>\<open>if\<close> falls through to the search. The inner test reads \<^verbatim>\<open>grid_path_type\<close> at the sink
  whenever the sink is not a valid position, hence also when it is out of bounds.\<close>

definition dijkstra_find_path :: "State \<Rightarrow> error + Path" where
  "dijkstra_find_path g =
     (if \<not> is_valid_position g (px (start g)) (py (start g)) then
        (if is_valid_position g (px (end_pt g)) (py (end_pt g)) then Inr no_path
         else if \<not> in_bounds (end_pt g) then Inl GridIndexOutOfBounds
         else if grid_path_type g (end_pt g) \<noteq> CELL_EMPTY then run_search g
         else Inr no_path)
      else run_search g)"

section \<open>The click handler and the loop over the K paths\<close>

text \<open>What one pass of the loop reports: the line \<^verbatim>\<open>Path i+1 Cost: c\<close> together with the
  path it was printed for, or the line \<^verbatim>\<open>No more paths found.\<close>\<close>

datatype event = PathFound nat Path | NoMorePaths

text \<open>The \<^verbatim>\<open>switch (i)\<close> choosing the colour of the path.\<close>

definition current_path_type :: "nat \<Rightarrow> CellType" where
  "current_path_type i =
     (if i = 0 then CELL_PATH_1
      else if i = 1 then CELL_PATH_2
      else if i = 2 then CELL_PATH_3
      else if i = 3 then CELL_PATH_4
      else if i = 4 then CELL_PATH_5
      else CELL_EMPTY)"

text \<open>The loop over \<^verbatim>\<open>p_idx\<close> that writes the path into \<^verbatim>\<open>grid_path_type\<close>.\<close>

fun mark_path :: "CellType \<Rightarrow> Path \<Rightarrow> nat list \<Rightarrow> State \<Rightarrow> error + State" where
  "mark_path t path [] s = Inr s"
| "mark_path t path (p_idx # rest) s =
     (let p = points path ! p_idx
      in if (px p = px (start s) \<and> py p = py (start s)) \<or>
            (px p = px (end_pt s) \<and> py p = py (end_pt s))
         then mark_path t path rest s
         else if \<not> in_bounds p then Inl GridIndexOutOfBounds
         else mark_path t path rest (s\<lparr>grid_path_type := (grid_path_type s)(p := t)\<rparr>))"

text \<open>The body of the loop \<^verbatim>\<open>for (int i = 0; i < K_PATHS; i++)\<close>; the event
  \<open>NoMorePaths\<close> stands for the \<^verbatim>\<open>break\<close>.\<close>

definition path_iteration :: "nat \<Rightarrow> State \<Rightarrow> error + (State \<times> event)" where
  "path_iteration i s =
     (case dijkstra_find_path s of
        Inl e \<Rightarrow> Inl e
      | Inr path \<Rightarrow>
          if path_cost path = -1 then Inr (s, NoMorePaths)
          else (case mark_path (current_path_type i) path [0..<nat (path_length path)] s of
                  Inl e \<Rightarrow> Inl e
                | Inr s' \<Rightarrow> Inr (s', PathFound (i + 1) path)))"

function find_paths :: "nat \<Rightarrow> State \<Rightarrow> error + (State \<times> event list)" where
  "find_paths i s =
     (if i < K_PATHS then
        (case path_iteration i s of
           Inl e \<Rightarrow> Inl e
         | Inr (s', NoMorePaths) \<Rightarrow> Inr (s', [NoMorePaths])
         | Inr (s', PathFound r path) \<Rightarrow>
             (case find_paths (Suc i) s' of
                Inl e \<Rightarrow> Inl e
              | Inr (s'', evs) \<Rightarrow> Inr (s'', PathFound r path # evs)))
      else Inr (s, []))"
  by pat_completeness auto
termination
  by (relation "measure (\<lambda>(i, s). K_PATHS - i)") auto

declare find_paths.simps [simp del]

text \<open>\<^verbatim>\<open>handle_click\<close>, with the screen coordinates of the click; it returns the new state and
  the events of the searches it ran.\<close>

definition handle_click :: "int \<Rightarrow> int \<Rightarrow> State \<Rightarrow> error + (State \<times> event list)" where
  "handle_click a b s =
     (let grid_pos = screen_to_grid a b
      in if px grid_pos < 0 \<or> px grid_pos \<ge> GRID_WIDTH \<or>
            py grid_pos < 0 \<or> py grid_pos \<ge> GRID_HEIGHT then Inr (s, [])
         else if paths_found_and_drawn s then Inr (s, [])
         else if grid s grid_pos = CELL_WALL then Inr (s, [])
         else if \<not> start_selected s then
           Inr (s\<lparr>start := grid_pos,
                   grid := (grid s)(grid_pos := CELL_START),
                   start_selected := True\<rparr>, [])
         else if \<not> end_selected s then
           (if \<not> (px grid_pos = px (start s) \<and> py grid_pos = py (start s)) then
              find_paths 0 (s\<lparr>end_pt := grid_pos,
                               grid := (grid s)(grid_pos := CELL_END),
                               end_selected := True,
                               paths_found_and_drawn := True\<rparr>)
            else Inr (s, []))
         else Inr (s, []))"

definition reset_grid :: "State \<Rightarrow> State" where
  "reset_grid s =
     s\<lparr>grid := (\<lambda>p. if in_bounds p \<and> grid s p \<noteq> CELL_WALL then CELL_EMPTY else grid s p),
       grid_path_type := (\<lambda>p. if in_bounds p then CELL_EMPTY else grid_path_type s p),
       start_selected := False,
       end_selected := False,
       paths_found_and_drawn := False,
       start := mk_point (-1) (-1),
       end_pt := mk_point (-1) (-1)\<rparr>"

text \<open>The globals as the C initialisers leave them before \<^verbatim>\<open>main\<close> runs.\<close>

definition boot_state :: State where
  "boot_state =
     \<lparr>grid = (\<lambda>p. CELL_EMPTY), grid_path_type = (\<lambda>p. CELL_EMPTY),
      start = mk_point (-1) (-1), end_pt = mk_point (-1) (-1),
      start_selected = False, end_selected = False, paths_found_and_drawn = False\<rparr>"

text \<open>The states the event loop of \<^verbatim>\<open>main\<close> can be in: after \<^verbatim>\<open>initialize_grid\<close>, and
  then after any left click, key R (\<^verbatim>\<open>initialize_grid\<close>) or key C (\<^verbatim>\<open>reset_grid\<close>).\<close>

inductive reachable :: "State \<Rightarrow> bool" where
  reach_boot: "reachable (initialize_grid walls boot_state)"
| reach_click: "reachable s \<Longrightarrow> handle_click a b s = Inr (s', evs) \<Longrightarrow> reachable s'"
| reach_key_R: "reachable s \<Longrightarrow> reachable (initialize_grid walls s)"
| reach_key_C: "reachable s \<Longrightarrow> reachable (reset_grid s)"

text \<open>The states at the head of the loop over the K paths: \<open>loop_head s0 i s\<close> holds when
  the loop entered in state \<open>s0\<close> begins its pass number \<open>i\<close> in state \<open>s\<close>.\<close>

inductive loop_head :: "State \<Rightarrow> nat \<Rightarrow> State \<Rightarrow> bool" where
  loop_enter: "loop_head s0 0 s0"
| loop_next: "loop_head s0 i s \<Longrightarrow> i < K_PATHS \<Longrightarrow>
              path_iteration i s = Inr (s', PathFound r path) \<Longrightarrow> loop_head s0 (Suc i) s'"

section \<open>Basic facts about points, the scan and the removal\<close>

lemma point_eq_iff: "px a = px b \<and> py a = py b \<longleftrightarrow> a = (b::Point)"
  by (cases a, cases b) auto

lemma mk_point_sel [simp]: "px (mk_point a b) = a" "py (mk_point a b) = b"
  by (simp_all add: mk_point_def)

lemma mk_point_collapse [simp]: "mk_point (px p) (py p) = p"
  by (simp add: mk_point_def)

lemma is_valid_position_iff:
  "is_valid_position g (px p) (py p) \<longleftrightarrow>
     in_bounds p \<and> grid g p \<noteq> CELL_WALL \<and> grid_path_type g p = CELL_EMPTY"
  by (auto simp: is_valid_position_def in_bounds_def)

lemma find_min_index_aux:
  assumes "0 < length ns"
  shows "k \<le> length ns \<Longrightarrow> 1 \<le> k \<Longrightarrow>
     (let m = fold (\<lambda>i min_index. if cost (ns ! i) < cost (ns ! min_index) then i else min_index)
                  [1..<k] 0
      in m < length ns \<and> (\<forall>j<k. cost (ns ! m) \<le> cost (ns ! j)))"
proof (induction k)
  case 0
  then show ?case by simp
next
  case (Suc k)
  show ?case
  proof (cases "k = 0")
    case True
    then show ?thesis using assms by simp
  next
    case False
    then have "1 \<le> k" "k \<le> length ns" using Suc.prems by auto
    from Suc.IH[OF this(2) this(1)] show ?thesis
      using Suc.prems \<open>1 \<le> k\<close> by (auto simp: Let_def less_Suc_eq)
  qed
qed

lemma find_min_index_less: "ns \<noteq> [] \<Longrightarrow> find_min_index ns < length ns"
  using find_min_index_aux[of ns "length ns"]
  by (cases ns) (auto simp: find_min_index_def Let_def)

lemma find_min_index_min:
  assumes "ns \<noteq> []" and "n \<in> set ns"
  shows "cost (ns ! find_min_index ns) \<le> cost n"
proof -
  from assms(2) obtain j where "j < length ns" "ns ! j = n"
    by (auto simp: in_set_conv_nth)
  moreover have "\<forall>j<length ns. cost (ns ! find_min_index ns) \<le> cost (ns ! j)"
    using find_min_index_aux[of ns "length ns"] assms(1)
    by (cases ns) (auto simp: find_min_index_def Let_def)
  ultimately show ?thesis by auto
qed

lemma mset_remove_node:
  assumes "i < length ns"
  shows "mset (remove_node ns i) = mset ns - {#ns ! i#}"
proof (cases "i = length ns - 1")
  case True
  have ne: "ns \<noteq> []" using assms by auto
  then have li: "last ns = ns ! i"
    using True by (simp add: last_conv_nth)
  then have "ns[i := last ns] = ns"
    by simp
  moreover have "ns = butlast ns @ [ns ! i]"
    using ne li append_butlast_last_id[of ns] by simp
  then have "mset ns = add_mset (ns ! i) (mset (butlast ns))"
    by (metis mset.simps(2) mset_append union_mset_add_mset_right add.right_neutral mset.simps(1))
  ultimately show ?thesis by (simp add: remove_node_def)
next
  case False
  then have i: "i < length (butlast ns)" using assms by simp
  have ns: "ns = butlast ns @ [last ns]"
    using assms by (cases ns rule: rev_cases) auto
  have "butlast (ns[i := last ns]) = (butlast ns)[i := last ns]"
    using False by (simp add: butlast_list_update)
  then have "mset (remove_node ns i) = add_mset (last ns) (mset (butlast ns) - {#butlast ns ! i#})"
    using i by (simp add: remove_node_def mset_update)
  moreover have "butlast ns ! i = ns ! i"
    using i by (simp add: nth_butlast)
  moreover have "mset ns = add_mset (last ns) (mset (butlast ns))"
    by (subst ns) simp
  moreover have "ns ! i \<in># mset (butlast ns)"
    using i \<open>butlast ns ! i = ns ! i\<close> by (metis nth_mem_mset)
  ultimately show ?thesis by simp
qed

section \<open>Invariants of the search loop\<close>

text \<open>The neighbour of \<open>c\<close> in direction \<open>i\<close>; \<open>adjacent\<close> is the relation of the
  four axial moves; \<open>open_cell\<close> is the test a neighbour has to pass in \<^verbatim>\<open>dijkstra_find_path\<close>:
  in bounds, and the sink or a valid position.\<close>

definition nb :: "Point \<Rightarrow> nat \<Rightarrow> Point" where
  "nb c i = mk_point (px c + dx ! i) (py c + dy ! i)"

definition adjacent :: "Point \<Rightarrow> Point \<Rightarrow> bool" where
  "adjacent a b \<longleftrightarrow> \<bar>px a - px b\<bar> + \<bar>py a - py b\<bar> = 1"

definition open_cell :: "State \<Rightarrow> Point \<Rightarrow> bool" where
  "open_cell g p \<longleftrightarrow>
     in_bounds p \<and> (p = end_pt g \<or> (grid g p \<noteq> CELL_WALL \<and> grid_path_type g p = CELL_EMPTY))"

text \<open>A cell is discovered once its distance has been written. The invariant of the loop
  has these parts:
  \<^item> \<open>queue_ok\<close>: the frontier holds distinct cells in bounds, not yet visited, each with its
    current distance as cost (there are no stale entries);
  \<^item> \<open>disc_ok\<close>: the discovered cells are the visited ones and those in the frontier;
  \<^item> \<open>levels_ok\<close>: every distance from 0 up to a discovered distance occurs, which bounds
    the distances by the number of cells;
  \<^item> \<open>tree_ok\<close>: the parent of a discovered cell is a visited neighbour one step closer to
    the source, and the cell passed the test of the neighbour loop;
  \<^item> \<open>order_head\<close>, \<open>order_mid\<close>: no visited cell is farther than a frontier entry, and the
    costs in the frontier differ by at most one;
  \<^item> \<open>settled\<close>, \<open>explored_but\<close>: every open neighbour of an expanded cell is discovered, at
    most one step farther.\<close>

definition discovered :: "Search \<Rightarrow> Point \<Rightarrow> bool" where
  "discovered s p \<longleftrightarrow> dist s p \<noteq> INT_MAX"

definition queue_ok :: "Search \<Rightarrow> bool" where
  "queue_ok s \<longleftrightarrow>
     (\<forall>n \<in> set (nodes s). in_bounds (pos n) \<and> \<not> visited s (pos n) \<and> cost n = dist s (pos n)) \<and>
     distinct (map pos (nodes s))"

definition disc_ok :: "Search \<Rightarrow> bool" where
  "disc_ok s \<longleftrightarrow>
     (\<forall>p. discovered s p \<longleftrightarrow> visited s p \<or> p \<in> pos ` set (nodes s)) \<and>
     (\<forall>p. visited s p \<longrightarrow> in_bounds p)"

definition levels_ok :: "Search \<Rightarrow> bool" where
  "levels_ok s \<longleftrightarrow>
     (\<forall>p. discovered s p \<longrightarrow>
        0 \<le> dist s p \<and> (\<forall>k. 0 \<le> k \<and> k \<le> dist s p \<longrightarrow> (\<exists>q. discovered s q \<and> dist s q = k)))"

definition tree_ok :: "State \<Rightarrow> Search \<Rightarrow> bool" where
  "tree_ok g s \<longleftrightarrow>
     dist s (start g) = 0 \<and>
     (\<forall>p. discovered s p \<and> p \<noteq> start g \<longrightarrow>
        visited s (parent s p) \<and> adjacent (parent s p) p \<and>
        dist s p = dist s (parent s p) + 1 \<and> open_cell g p \<and> parent s p \<noteq> end_pt g)"

definition order_mid :: "Point \<Rightarrow> Search \<Rightarrow> bool" where
  "order_mid c s \<longleftrightarrow>
     (\<forall>v. visited s v \<longrightarrow> dist s v \<le> dist s c) \<and>
     (\<forall>n \<in> set (nodes s). dist s c \<le> cost n \<and> cost n \<le> dist s c + 1)"

definition order_head :: "Search \<Rightarrow> bool" where
  "order_head s \<longleftrightarrow>
     (\<forall>n \<in> set (nodes s). \<forall>v. visited s v \<longrightarrow> dist s v \<le> cost n) \<and>
     (\<forall>a \<in> set (nodes s). \<forall>b \<in> set (nodes s). cost a \<le> cost b + 1)"

definition settled :: "State \<Rightarrow> Search \<Rightarrow> Point \<Rightarrow> Point \<Rightarrow> bool" where
  "settled g s u v \<longleftrightarrow> (open_cell g v \<longrightarrow> discovered s v \<and> dist s v \<le> dist s u + 1)"

definition explored_but :: "State \<Rightarrow> Search \<Rightarrow> Point \<Rightarrow> bool" where
  "explored_but g s c \<longleftrightarrow>
     (\<forall>u v. visited s u \<and> u \<noteq> end_pt g \<and> u \<noteq> c \<and> adjacent u v \<longrightarrow> settled g s u v)"

text \<open>\<open>head_inv\<close> holds whenever the \<^verbatim>\<open>while\<close> loop tests its condition; \<open>mid_inv g c k\<close>
  holds inside the neighbour loop of the popped cell \<open>c\<close>, before direction \<open>k\<close>.\<close>

definition head_inv :: "State \<Rightarrow> Search \<Rightarrow> bool" where
  "head_inv g s \<longleftrightarrow>
     queue_ok s \<and> disc_ok s \<and> levels_ok s \<and> tree_ok g s \<and> order_head s \<and>
     (\<forall>u v. visited s u \<and> u \<noteq> end_pt g \<and> adjacent u v \<longrightarrow> settled g s u v) \<and>
     \<not> visited s (end_pt g)"

definition mid_inv :: "State \<Rightarrow> Point \<Rightarrow> nat \<Rightarrow> Search \<Rightarrow> bool" where
  "mid_inv g c k s \<longleftrightarrow>
     queue_ok s \<and> disc_ok s \<and> levels_ok s \<and> tree_ok g s \<and> order_mid c s \<and>
     explored_but g s c \<and> (\<forall>i<k. settled g s c (nb c i)) \<and>
     visited s c \<and> (visited s (end_pt g) \<longrightarrow> c = end_pt g)"

lemma nb_sel:
  "px (nb c 0) = px c" "py (nb c 0) = py c - 1"
  "px (nb c (Suc 0)) = px c + 1" "py (nb c (Suc 0)) = py c"
  "px (nb c 2) = px c" "py (nb c 2) = py c + 1"
  "px (nb c 3) = px c - 1" "py (nb c 3) = py c"
  by (simp_all add: nb_def dx_def dy_def)

lemma adjacent_iff_nb: "adjacent c v \<longleftrightarrow> (\<exists>i<4. v = nb c i)"
proof
  assume a: "adjacent c v"
  from a have "(px v = px c \<and> py v = py c - 1) \<or> (px v = px c + 1 \<and> py v = py c)
      \<or> (px v = px c \<and> py v = py c + 1) \<or> (px v = px c - 1 \<and> py v = py c)"
    unfolding adjacent_def by linarith
  then have "v = nb c 0 \<or> v = nb c (Suc 0) \<or> v = nb c 2 \<or> v = nb c 3"
    unfolding point_eq_iff[symmetric] nb_sel by simp
  moreover have "(0::nat) < 4" "Suc 0 < 4" "(2::nat) < 4" "(3::nat) < 4" by simp_all
  ultimately show "\<exists>i<4. v = nb c i" by blast
next
  assume "\<exists>i<4. v = nb c i"
  then obtain i where "i < 4" "v = nb c i" by auto
  then have "i = 0 \<or> i = Suc 0 \<or> i = 2 \<or> i = 3" by auto
  then show "adjacent c v"
    using \<open>v = nb c i\<close> by (auto simp: adjacent_def nb_sel)
qed

lemma discovered_in_bounds:
  assumes "queue_ok s" "disc_ok s" "discovered s p"
  shows "in_bounds p"
  using assms unfolding queue_ok_def disc_ok_def by auto

lemma levels_bound:
  assumes "queue_ok s" "disc_ok s" "levels_ok s" "discovered s p"
  shows "dist s p + 1 \<le> int CAPACITY"
proof -
  let ?D = "{q. discovered s q}"
  have sub: "?D \<subseteq> {q. in_bounds q}"
    using discovered_in_bounds[OF assms(1,2)] by auto
  then have fin: "finite ?D" using finite_in_bounds by (rule finite_subset)
  have "0 \<le> dist s p" using assms(3,4) by (auto simp: levels_ok_def)
  have "{0..dist s p} \<subseteq> dist s ` ?D"
  proof
    fix k assume "k \<in> {0..dist s p}"
    then obtain q where "discovered s q" "dist s q = k"
      using assms(3,4) unfolding levels_ok_def by fastforce
    then show "k \<in> dist s ` ?D" by auto
  qed
  then have "card {0..dist s p} \<le> card (dist s ` ?D)"
    using fin by (intro card_mono) auto
  also have "\<dots> \<le> card ?D" using fin by (rule card_image_le)
  also have "\<dots> \<le> card {q. in_bounds q}" using sub finite_in_bounds by (intro card_mono) auto
  finally have "card {0..dist s p} \<le> CAPACITY" by (simp add: card_in_bounds)
  then show ?thesis using \<open>0 \<le> dist s p\<close> by simp
qed

lemma CAPACITY_less_INT_MAX: "int CAPACITY < INT_MAX - 1"
  by (simp add: CAPACITY_def INT_MAX_def GRID_WIDTH_def GRID_HEIGHT_def)

text \<open>The three writes of the neighbour loop when it pushes the neighbour \<open>n\<close> of \<open>c\<close>.\<close>

definition push :: "Point \<Rightarrow> Point \<Rightarrow> Search \<Rightarrow> Search" where
  "push c n s = s\<lparr>dist := (dist s)(n := dist s c + 1),
                  parent := (parent s)(n := c),
                  nodes := nodes s @ [\<lparr>pos = n, cost = dist s c + 1\<rparr>]\<rparr>"

lemma relax_unfold:
  "relax g c i s =
     (if \<not> open_cell g (nb c i) \<and> (nb c i \<noteq> end_pt g) then Inr s
      else if \<not> in_bounds (nb c i) then Inl GridIndexOutOfBounds
      else if visited s (nb c i) then Inr s
      else if dist s c + 1 < dist s (nb c i) then
             (if length (nodes s) \<ge> CAPACITY then Inl NodesOverflow else Inr (push c (nb c i) s))
           else Inr s)"
proof -
  let ?n = "nb c i"
  have eq: "(px c + dx ! i = px (end_pt g) \<and> py c + dy ! i = py (end_pt g)) \<longleftrightarrow> ?n = end_pt g"
    using point_eq_iff[of ?n "end_pt g"] by (simp add: nb_def)
  have valid: "is_valid_position g (px c + dx ! i) (py c + dy ! i) \<longleftrightarrow>
      in_bounds ?n \<and> grid g ?n \<noteq> CELL_WALL \<and> grid_path_type g ?n = CELL_EMPTY"
    using is_valid_position_iff[of g ?n] by (simp add: nb_def)
  show ?thesis
    unfolding relax_def Let_def eq valid push_def nb_def[symmetric] open_cell_def by auto
qed


lemma relax_cases:
  assumes "relax g c i s = Inr s'"
  obtains (skip) "s' = s" "\<not> open_cell g (nb c i)"
  | (seen) "s' = s" "visited s (nb c i)"
  | (nolower) "s' = s" "\<not> visited s (nb c i)" "dist s (nb c i) \<le> dist s c + 1"
  | (pushed) "open_cell g (nb c i)" "\<not> visited s (nb c i)" "dist s c + 1 < dist s (nb c i)"
      "length (nodes s) < CAPACITY" "s' = push c (nb c i) s"
proof -
  have "(s' = s \<and> \<not> open_cell g (nb c i)) \<or> (s' = s \<and> visited s (nb c i))
     \<or> (s' = s \<and> \<not> visited s (nb c i) \<and> dist s (nb c i) \<le> dist s c + 1)
     \<or> (open_cell g (nb c i) \<and> \<not> visited s (nb c i) \<and> dist s c + 1 < dist s (nb c i) \<and>
         length (nodes s) < CAPACITY \<and> s' = push c (nb c i) s)"
    using assms unfolding relax_unfold
    by (auto split: if_splits simp: open_cell_def)
  then show thesis using that by blast
qed

subsection \<open>The neighbour loop keeps the invariant\<close>

lemma push_sel [simp]:
  "dist (push c n s) = (dist s)(n := dist s c + 1)"
  "visited (push c n s) = visited s"
  "parent (push c n s) = (parent s)(n := c)"
  "nodes (push c n s) = nodes s @ [\<lparr>pos = n, cost = dist s c + 1\<rparr>]"
  by (simp_all add: push_def)

lemma discovered_push:
  assumes "dist s c + 1 \<noteq> INT_MAX"
  shows "discovered (push c n s) p \<longleftrightarrow> p = n \<or> discovered s p"
  using assms by (simp add: discovered_def)

lemma push_queue_ok:
  assumes "queue_ok s" "in_bounds n" "\<not> visited s n" "n \<notin> pos ` set (nodes s)" "c \<noteq> n"
  shows "queue_ok (push c n s)"
  using assms unfolding queue_ok_def by auto

lemma push_disc_ok:
  assumes "disc_ok s" "in_bounds n" "dist s c + 1 \<noteq> INT_MAX"
  shows "disc_ok (push c n s)"
  using assms(1,2) unfolding disc_ok_def discovered_push[OF assms(3)] by auto

lemma push_levels_ok:
  assumes "levels_ok s" "discovered s c" "\<not> discovered s n" "dist s c + 1 \<noteq> INT_MAX"
  shows "levels_ok (push c n s)"
  unfolding levels_ok_def
proof (intro allI impI)
  fix p assume p: "discovered (push c n s) p"
  have cn: "c \<noteq> n" using assms(2,3) by auto
  have keep: "\<And>q. discovered s q \<Longrightarrow> discovered (push c n s) q \<and> dist (push c n s) q = dist s q"
    using assms(3,4) by (auto simp: discovered_push)
  have lv: "\<And>q k. discovered s q \<Longrightarrow> 0 \<le> k \<Longrightarrow> k \<le> dist s q \<Longrightarrow>
      \<exists>r. discovered (push c n s) r \<and> dist (push c n s) r = k"
  proof -
    fix q k assume "discovered s q" "0 \<le> k" "k \<le> dist s q"
    then obtain r where "discovered s r" "dist s r = k"
      using assms(1) unfolding levels_ok_def by blast
    then show "\<exists>r. discovered (push c n s) r \<and> dist (push c n s) r = k"
      using keep by blast
  qed
  have c0: "0 \<le> dist s c" using assms(1,2) unfolding levels_ok_def by blast
  show "0 \<le> dist (push c n s) p \<and>
      (\<forall>k. 0 \<le> k \<and> k \<le> dist (push c n s) p \<longrightarrow>
         (\<exists>q. discovered (push c n s) q \<and> dist (push c n s) q = k))"
  proof (cases "p = n")
    case True
    have dn: "dist (push c n s) n = dist s c + 1" by simp
    have "\<And>k. 0 \<le> k \<Longrightarrow> k \<le> dist s c + 1 \<Longrightarrow>
        \<exists>q. discovered (push c n s) q \<and> dist (push c n s) q = k"
    proof -
      fix k :: int assume k: "0 \<le> k" "k \<le> dist s c + 1"
      show "\<exists>q. discovered (push c n s) q \<and> dist (push c n s) q = k"
      proof (cases "k = dist s c + 1")
        case True
        then show ?thesis using dn assms(4) by (auto simp: discovered_push)
      next
        case False
        then have "k \<le> dist s c" using k by simp
        then show ?thesis using lv[OF assms(2) k(1)] by simp
      qed
    qed
    then show ?thesis using True c0 dn by auto
  next
    case False
    then have d: "discovered s p" using p assms(4) by (simp add: discovered_push)
    then have "dist (push c n s) p = dist s p" using keep by simp
    moreover have "0 \<le> dist s p" using assms(1) d unfolding levels_ok_def by blast
    ultimately show ?thesis using lv[OF d] by auto
  qed
qed

lemma push_tree_ok:
  assumes "tree_ok g s" "disc_ok s" "visited s c" "\<not> discovered s n" "adjacent c n"
    "open_cell g n" "c \<noteq> end_pt g" "dist s c + 1 \<noteq> INT_MAX"
  shows "tree_ok g (push c n s)"
proof -
  have vd: "\<And>v. visited s v \<Longrightarrow> discovered s v" using assms(2) by (auto simp: disc_ok_def)
  have cn: "c \<noteq> n" using vd[OF assms(3)] assms(4) by auto
  have st: "discovered s (start g)" using assms(1) by (simp add: tree_ok_def discovered_def INT_MAX_def)
  then have sn: "start g \<noteq> n" using assms(4) by auto
  have "dist (push c n s) (start g) = 0" using sn assms(1) by (simp add: tree_ok_def)
  moreover have "\<And>p. discovered (push c n s) p \<Longrightarrow> p \<noteq> start g \<Longrightarrow>
        visited (push c n s) (parent (push c n s) p) \<and> adjacent (parent (push c n s) p) p \<and>
        dist (push c n s) p = dist (push c n s) (parent (push c n s) p) + 1 \<and> open_cell g p \<and>
        parent (push c n s) p \<noteq> end_pt g"
  proof -
    fix p assume p: "discovered (push c n s) p" "p \<noteq> start g"
    show "visited (push c n s) (parent (push c n s) p) \<and> adjacent (parent (push c n s) p) p \<and>
        dist (push c n s) p = dist (push c n s) (parent (push c n s) p) + 1 \<and> open_cell g p \<and>
        parent (push c n s) p \<noteq> end_pt g"
    proof (cases "p = n")
      case True
      then show ?thesis using assms(3,5,6,7) cn by simp
    next
      case False
      then have d: "discovered s p" using p(1) assms(8) by (simp add: discovered_push)
      then have t: "visited s (parent s p)" "adjacent (parent s p) p"
        "dist s p = dist s (parent s p) + 1" "open_cell g p" "parent s p \<noteq> end_pt g"
        using assms(1) p(2) unfolding tree_ok_def by blast+
      have "parent s p \<noteq> n" using vd[OF t(1)] assms(4) by auto
      then show ?thesis using False t by simp
    qed
  qed
  ultimately show ?thesis unfolding tree_ok_def by blast
qed

lemma push_order_mid:
  assumes "order_mid c s" "disc_ok s" "visited s c" "\<not> discovered s n"
  shows "order_mid c (push c n s)"
proof -
  have vd: "\<And>v. visited s v \<Longrightarrow> v \<noteq> n" using assms(2,4) by (auto simp: disc_ok_def)
  then have cn: "c \<noteq> n" using assms(3) by auto
  show ?thesis
    using assms(1) vd cn unfolding order_mid_def by auto
qed

lemma push_settled:
  assumes "settled g s u v" "discovered s u" "\<not> discovered s n" "dist s c + 1 \<noteq> INT_MAX"
  shows "settled g (push c n s) u v"
proof -
  have un: "u \<noteq> n" using assms(2,3) by auto
  show ?thesis
    unfolding settled_def
  proof
    assume "open_cell g v"
    then have v: "discovered s v" "dist s v \<le> dist s u + 1"
      using assms(1) by (auto simp: settled_def)
    then have "v \<noteq> n" using assms(3) by auto
    then show "discovered (push c n s) v \<and> dist (push c n s) v \<le> dist (push c n s) u + 1"
      using v un assms(4) by (simp add: discovered_push)
  qed
qed

lemma push_settled_new:
  assumes "discovered s c" "\<not> discovered s n" "dist s c + 1 \<noteq> INT_MAX"
  shows "settled g (push c n s) c n"
proof -
  have "c \<noteq> n" using assms(1,2) by auto
  then show ?thesis using assms(3) by (simp add: settled_def discovered_push)
qed

lemma push_explored_but:
  assumes "explored_but g s c'" "disc_ok s" "\<not> discovered s n" "dist s c + 1 \<noteq> INT_MAX"
  shows "explored_but g (push c n s) c'"
  unfolding explored_but_def
proof (intro allI impI)
  fix u v assume a: "visited (push c n s) u \<and> u \<noteq> end_pt g \<and> u \<noteq> c' \<and> adjacent u v"
  then have "settled g s u v" using assms(1) by (auto simp: explored_but_def)
  moreover have "discovered s u" using a assms(2) by (auto simp: disc_ok_def)
  ultimately show "settled g (push c n s) u v" using assms(3,4) by (rule push_settled)
qed

text \<open>A cell that the neighbour loop pushes has not been discovered before.\<close>

lemma pushed_undiscovered:
  assumes "queue_ok s" "disc_ok s" "order_mid c s" "\<not> visited s n" "dist s c + 1 < dist s n"
  shows "\<not> discovered s n"
proof
  assume "discovered s n"
  then obtain m where m: "m \<in> set (nodes s)" "pos m = n"
    using assms(2,4) unfolding disc_ok_def by auto
  then have "cost m = dist s n" using assms(1) by (auto simp: queue_ok_def)
  moreover have "cost m \<le> dist s c + 1" using assms(3) m(1) by (auto simp: order_mid_def)
  ultimately show False using assms(5) by simp
qed

lemma mid_discovered_c:
  assumes "mid_inv g c k s"
  shows "discovered s c" "dist s c + 1 < INT_MAX"
proof -
  show d: "discovered s c" using assms by (auto simp: mid_inv_def disc_ok_def)
  have "dist s c + 1 \<le> int CAPACITY"
    using assms d by (intro levels_bound) (auto simp: mid_inv_def)
  then show "dist s c + 1 < INT_MAX" using CAPACITY_less_INT_MAX by linarith
qed

lemma relax_mid_inv:
  assumes inv: "mid_inv g c k s" and ce: "c \<noteq> end_pt g" and k: "k < 4"
    and r: "relax g c k s = Inr s'"
  shows "mid_inv g c (Suc k) s'"
proof -
  note dc = mid_discovered_c[OF inv]
  have q: "queue_ok s" and d: "disc_ok s" and l: "levels_ok s" and t: "tree_ok g s"
    and om: "order_mid c s" and ex: "explored_but g s c"
    and st: "\<forall>i<k. settled g s c (nb c i)" and vc: "visited s c"
    and ve: "visited s (end_pt g) \<longrightarrow> c = end_pt g"
    using inv by (auto simp: mid_inv_def)
  have adj: "adjacent c (nb c k)" using k by (auto simp: adjacent_iff_nb)
  from r show ?thesis
  proof (cases rule: relax_cases)
    case skip
    then have "settled g s c (nb c k)" by (simp add: settled_def)
    then have "\<forall>i<Suc k. settled g s c (nb c i)" using st by (auto simp: less_Suc_eq)
    then show ?thesis using inv skip(1) by (simp add: mid_inv_def)
  next
    case seen
    then have "discovered s (nb c k)" "dist s (nb c k) \<le> dist s c"
      using d om by (auto simp: disc_ok_def order_mid_def)
    then have "settled g s c (nb c k)" by (simp add: settled_def)
    then have "\<forall>i<Suc k. settled g s c (nb c i)" using st by (auto simp: less_Suc_eq)
    then show ?thesis using inv seen(1) by (simp add: mid_inv_def)
  next
    case nolower
    then have "discovered s (nb c k)" using dc(2) by (auto simp: discovered_def)
    then have "settled g s c (nb c k)" using nolower by (simp add: settled_def)
    then have "\<forall>i<Suc k. settled g s c (nb c i)" using st by (auto simp: less_Suc_eq)
    then show ?thesis using inv nolower(1) by (simp add: mid_inv_def)
  next
    case pushed
    let ?n = "nb c k"
    have nd: "\<not> discovered s ?n" using q d om pushed(2,3) by (rule pushed_undiscovered)
    have ne: "dist s c + 1 \<noteq> INT_MAX" using dc(2) by simp
    have ib: "in_bounds ?n" using pushed(1) by (simp add: open_cell_def)
    have nq: "?n \<notin> pos ` set (nodes s)" using nd d by (auto simp: disc_ok_def)
    have cn: "c \<noteq> ?n" using dc(1) nd by auto
    have 1: "queue_ok s'" unfolding pushed(5) using q ib pushed(2) nq cn by (rule push_queue_ok)
    have 2: "disc_ok s'" unfolding pushed(5) using d ib ne by (rule push_disc_ok)
    have 3: "levels_ok s'" unfolding pushed(5) using l dc(1) nd ne by (rule push_levels_ok)
    have 4: "tree_ok g s'" unfolding pushed(5) using t d vc nd adj pushed(1) ce ne by (rule push_tree_ok)
    have 5: "order_mid c s'" unfolding pushed(5) using om d vc nd by (rule push_order_mid)
    have 6: "explored_but g s' c" unfolding pushed(5) using ex d nd ne by (rule push_explored_but)
    have 7: "\<forall>i<Suc k. settled g s' c (nb c i)"
    proof (intro allI impI)
      fix i assume "i < Suc k"
      then consider "i < k" | "i = k" by linarith
      then show "settled g s' c (nb c i)"
      proof cases
        case 1
        then have "settled g s c (nb c i)" using st by simp
        then show ?thesis unfolding pushed(5) using dc(1) nd ne by (rule push_settled)
      next
        case 2
        then show ?thesis unfolding pushed(5) using push_settled_new[OF dc(1) nd ne] by simp
      qed
    qed
    have 8: "visited s' c" "visited s' (end_pt g) \<longrightarrow> c = end_pt g"
      using vc ve by (simp_all add: pushed(5))
    show ?thesis unfolding mid_inv_def using 1 2 3 4 5 6 7 8 by blast
  qed
qed

lemma relax_no_overflow:
  assumes inv: "mid_inv g c k s"
  shows "relax g c k s \<noteq> Inl NodesOverflow"
proof
  assume r: "relax g c k s = Inl NodesOverflow"
  let ?n = "nb c k"
  have q: "queue_ok s" and d: "disc_ok s" and om: "order_mid c s" and vc: "visited s c"
    using inv by (auto simp: mid_inv_def)
  from r have f: "\<not> visited s ?n" "dist s c + 1 < dist s ?n" "CAPACITY \<le> length (nodes s)"
    unfolding relax_unfold by (auto split: if_splits)
  have "distinct (map pos (nodes s))" using q by (simp add: queue_ok_def)
  then have "card (pos ` set (nodes s)) = length (nodes s)"
    by (metis distinct_card length_map set_map)
  moreover have "c \<notin> pos ` set (nodes s)" using q vc by (auto simp: queue_ok_def)
  moreover have "insert c (pos ` set (nodes s)) \<subseteq> {p. in_bounds p}"
    using q d vc by (auto simp: queue_ok_def disc_ok_def)
  then have "card (insert c (pos ` set (nodes s))) \<le> CAPACITY"
    using card_mono[OF finite_in_bounds] by (simp add: card_in_bounds)
  ultimately show False using f(3) by simp
qed

lemma relax_no_oob:
  assumes "in_bounds (end_pt g)"
  shows "relax g c k s \<noteq> Inl GridIndexOutOfBounds"
  using assms unfolding relax_unfold by (auto simp: open_cell_def)

subsection \<open>Extraction of the minimum and the whole pass\<close>

lemma remove_node_props:
  assumes "ns \<noteq> []" "distinct (map pos ns)"
  shows "set (remove_node ns (find_min_index ns)) = set ns - {ns ! find_min_index ns}"
    and "distinct (map pos (remove_node ns (find_min_index ns)))"
    and "length (remove_node ns (find_min_index ns)) < length ns"
proof -
  let ?i = "find_min_index ns" and ?cur = "ns ! find_min_index ns"
  have i: "?i < length ns" using assms(1) by (rule find_min_index_less)
  have dn: "distinct ns" using assms(2) by (simp add: distinct_map)
  have m: "mset (remove_node ns ?i) = mset (remove1 ?cur ns)"
    using mset_remove_node[OF i] by simp
  then have "set (remove_node ns ?i) = set (remove1 ?cur ns)" by (rule mset_eq_setD)
  then show "set (remove_node ns ?i) = set ns - {?cur}" using dn by simp
  have "mset (map pos (remove_node ns ?i)) = mset (map pos (remove1 ?cur ns))"
    using m by simp
  moreover have "distinct (map pos (remove1 ?cur ns))"
    using assms(2) dn by (auto simp: distinct_map intro: inj_on_subset dest: notin_set_remove1)
  ultimately show "distinct (map pos (remove_node ns ?i))"
    by (metis mset_eq_imp_distinct_iff)
  show "length (remove_node ns ?i) < length ns"
    using assms(1) by (simp add: remove_node_def)
qed

text \<open>The state after the entry of minimum cost has been removed and its cell marked visited.\<close>

definition popped :: "Search \<Rightarrow> Search" where
  "popped s = s\<lparr>nodes := remove_node (nodes s) (find_min_index (nodes s)),
               visited := (visited s)(pos (nodes s ! find_min_index (nodes s)) := True)\<rparr>"

lemma popped_sel [simp]:
  "dist (popped s) = dist s"
  "parent (popped s) = parent s"
  "nodes (popped s) = remove_node (nodes s) (find_min_index (nodes s))"
  "visited (popped s) = (visited s)(pos (nodes s ! find_min_index (nodes s)) := True)"
  by (simp_all add: popped_def)

lemma discovered_popped [simp]: "discovered (popped s) p = discovered s p"
  by (simp add: discovered_def)

lemma settled_popped [simp]: "settled g (popped s) u v = settled g s u v"
  by (simp add: settled_def)

lemma pop_mid_inv:
  assumes inv: "head_inv g s" and ne: "nodes s \<noteq> []"
  defines "cur \<equiv> nodes s ! find_min_index (nodes s)"
  shows "mid_inv g (pos cur) 0 (popped s)"
    and "in_bounds (pos cur)" and "\<not> visited s (pos cur)" and "cost cur = dist s (pos cur)"
proof -
  have q: "queue_ok s" and d: "disc_ok s" and l: "levels_ok s" and t: "tree_ok g s"
    and oh: "order_head s"
    and ex: "\<forall>u v. visited s u \<and> u \<noteq> end_pt g \<and> adjacent u v \<longrightarrow> settled g s u v"
    and ve: "\<not> visited s (end_pt g)"
    using inv by (auto simp: head_inv_def)
  have dm: "distinct (map pos (nodes s))" using q by (simp add: queue_ok_def)
  note rm = remove_node_props[OF ne dm, folded cur_def]
  have cur: "cur \<in> set (nodes s)"
    unfolding cur_def using find_min_index_less[OF ne] by simp
  show ib: "in_bounds (pos cur)" and nv: "\<not> visited s (pos cur)"
    and cd: "cost cur = dist s (pos cur)"
    using q cur by (auto simp: queue_ok_def)
  have min: "\<And>n. n \<in> set (nodes s) \<Longrightarrow> cost cur \<le> cost n"
    unfolding cur_def using ne by (rule find_min_index_min)
  have other: "\<And>n. n \<in> set (nodes s) \<Longrightarrow> n \<noteq> cur \<Longrightarrow> pos n \<noteq> pos cur"
    using dm cur by (auto simp: distinct_map inj_on_def)
  have 1: "queue_ok (popped s)"
    unfolding queue_ok_def using q rm(1,2) other
    by (auto simp: queue_ok_def cur_def)
  have 2: "disc_ok (popped s)"
    unfolding disc_ok_def
  proof (intro conjI allI)
    fix p
    show "discovered (popped s) p \<longleftrightarrow>
        visited (popped s) p \<or> p \<in> pos ` set (nodes (popped s))"
    proof (cases "p = pos cur")
      case True
      then show ?thesis using d cur by (auto simp: disc_ok_def cur_def)
    next
      case False
      have "p \<in> pos ` set (nodes s) \<longleftrightarrow> p \<in> pos ` (set (nodes s) - {cur})"
        using False by auto
      then show ?thesis using d False rm(1) by (simp add: disc_ok_def cur_def)
    qed
    show "visited (popped s) p \<longrightarrow> in_bounds p"
      using d ib by (auto simp: disc_ok_def cur_def)
  qed
  have 3: "levels_ok (popped s)" using l by (simp add: levels_ok_def)
  have 4: "tree_ok g (popped s)" using t by (auto simp: tree_ok_def)
  have 5: "order_mid (pos cur) (popped s)"
    unfolding order_mid_def
  proof (intro conjI allI impI ballI)
    fix v assume "visited (popped s) v"
    then have "v = pos cur \<or> visited s v" by (auto simp: cur_def split: if_splits)
    then show "dist (popped s) v \<le> dist (popped s) (pos cur)"
      using oh cur cd by (auto simp: order_head_def)
  next
    fix n assume "n \<in> set (nodes (popped s))"
    then have n: "n \<in> set (nodes s)" using rm(1) by (simp add: cur_def)
    show "dist (popped s) (pos cur) \<le> cost n" using min[OF n] cd by simp
    have "cost n \<le> cost cur + 1" using oh n cur unfolding order_head_def by blast
    then show "cost n \<le> dist (popped s) (pos cur) + 1"
      using cd by simp
  qed
  have 6: "explored_but g (popped s) (pos cur)"
    using ex by (auto simp: explored_but_def cur_def)
  have 7: "visited (popped s) (pos cur)" by (simp add: cur_def)
  have 8: "visited (popped s) (end_pt g) \<longrightarrow> pos cur = end_pt g"
    using ve by (auto simp: cur_def)
  show "mid_inv g (pos cur) 0 (popped s)"
    unfolding mid_inv_def using 1 2 3 4 5 6 7 8 by simp
qed

lemma mid_head_inv:
  assumes inv: "mid_inv g c 4 s" and ce: "c \<noteq> end_pt g"
  shows "head_inv g s"
proof -
  have q: "queue_ok s" and d: "disc_ok s" and l: "levels_ok s" and t: "tree_ok g s"
    and om: "order_mid c s" and ex: "explored_but g s c"
    and st: "\<forall>i<4. settled g s c (nb c i)" and vc: "visited s c"
    and ve: "visited s (end_pt g) \<longrightarrow> c = end_pt g"
    using inv by (auto simp: mid_inv_def)
  have 5: "order_head s"
    unfolding order_head_def
  proof (intro conjI ballI allI impI)
    fix n v assume "n \<in> set (nodes s)" "visited s v"
    then have "dist s v \<le> dist s c" "dist s c \<le> cost n"
      using om by (auto simp: order_mid_def)
    then show "dist s v \<le> cost n" by simp
  next
    fix a b assume "a \<in> set (nodes s)" "b \<in> set (nodes s)"
    then have "cost a \<le> dist s c + 1" "dist s c \<le> cost b"
      using om by (auto simp: order_mid_def)
    then show "cost a \<le> cost b + 1" by simp
  qed
  have 6: "\<forall>u v. visited s u \<and> u \<noteq> end_pt g \<and> adjacent u v \<longrightarrow> settled g s u v"
  proof (intro allI impI)
    fix u v assume a: "visited s u \<and> u \<noteq> end_pt g \<and> adjacent u v"
    show "settled g s u v"
    proof (cases "u = c")
      case True
      then show ?thesis using a st by (auto simp: adjacent_iff_nb)
    next
      case False
      then show ?thesis using a ex by (auto simp: explored_but_def)
    qed
  qed
  have 7: "\<not> visited s (end_pt g)" using ve ce by auto
  show ?thesis unfolding head_inv_def using q d l t 5 6 7 by simp
qed

lemma init_head_inv:
  assumes "in_bounds (start g)"
  shows "head_inv g (init_search g)"
proof -
  have d: "\<And>p. discovered (init_search g) p \<longleftrightarrow> p = start g"
    by (simp add: discovered_def init_search_def INT_MAX_def)
  have 1: "queue_ok (init_search g)" using assms by (simp add: queue_ok_def init_search_def)
  have 2: "disc_ok (init_search g)" unfolding disc_ok_def d by (simp add: init_search_def)
  have 3: "levels_ok (init_search g)" unfolding levels_ok_def d by (auto simp: init_search_def)
  have 4: "tree_ok g (init_search g)" unfolding tree_ok_def d by (simp add: init_search_def)
  have 5: "order_head (init_search g)" by (simp add: order_head_def init_search_def)
  show ?thesis unfolding head_inv_def using 1 2 3 4 5 by (simp add: init_search_def)
qed

lemma explore_mid_inv:
  assumes "mid_inv g c 0 s" "c \<noteq> end_pt g" "explore g c [0..<4] s = Inr s'"
  shows "mid_inv g c 4 s'"
proof -
  have u: "[0..<4] = [0, Suc 0, 2, 3]" by (simp add: upt_rec)
  from assms(3) obtain s1 s2 s3 where
    r: "relax g c 0 s = Inr s1" "relax g c (Suc 0) s1 = Inr s2" "relax g c 2 s2 = Inr s3"
       "relax g c 3 s3 = Inr s'"
    unfolding u by (auto split: sum.splits)
  have "mid_inv g c (Suc 0) s1" using assms(1,2) _ r(1) by (rule relax_mid_inv) simp
  then have "mid_inv g c (Suc (Suc 0)) s2" using assms(2) _ r(2) by (rule relax_mid_inv) simp
  then have "mid_inv g c 2 s2" by (simp add: numeral_2_eq_2)
  then have "mid_inv g c (Suc 2) s3" using assms(2) _ r(3) by (rule relax_mid_inv) simp
  then have "mid_inv g c 3 s3" by (simp add: numeral_3_eq_3)
  then have "mid_inv g c (Suc 3) s'" using assms(2) _ r(4) by (rule relax_mid_inv) simp
  then show ?thesis by (simp add: eval_nat_numeral)
qed

lemma relax_error:
  assumes "mid_inv g c k s" "relax g c k s = Inl e"
  shows "e = GridIndexOutOfBounds \<and> \<not> in_bounds (end_pt g)"
proof -
  have "e \<noteq> NodesOverflow" using relax_no_overflow[OF assms(1)] assms(2) by auto
  then show ?thesis
    using assms(2) unfolding relax_unfold by (auto simp: open_cell_def split: if_splits)
qed

lemma explore_errors:
  assumes "mid_inv g c 0 s" "c \<noteq> end_pt g" "explore g c [0..<4] s = Inl e"
  shows "e = GridIndexOutOfBounds \<and> \<not> in_bounds (end_pt g)"
proof -
  have u: "[0..<4] = [0, Suc 0, 2, 3]" by (simp add: upt_rec)
  note step = relax_mid_inv[OF _ assms(2)]
  show ?thesis
  proof (cases "relax g c 0 s")
    case (Inl e0)
    then show ?thesis using assms(3) relax_error[OF assms(1) Inl] unfolding u by simp
  next
    case (Inr s1)
    have i1: "mid_inv g c (Suc 0) s1" using step[OF assms(1) _ Inr] by simp
    show ?thesis
    proof (cases "relax g c (Suc 0) s1")
      case (Inl e1)
      then show ?thesis using assms(3) Inr relax_error[OF i1 Inl] unfolding u by simp
    next
      case r2: (Inr s2)
      have i2: "mid_inv g c 2 s2" using step[OF i1 _ r2] by (simp add: numeral_2_eq_2)
      show ?thesis
      proof (cases "relax g c 2 s2")
        case (Inl e2)
        then show ?thesis using assms(3) Inr r2 relax_error[OF i2 Inl] unfolding u by simp
      next
        case r3: (Inr s3)
        have i3: "mid_inv g c 3 s3" using step[OF i2 _ r3] by (simp add: numeral_3_eq_3)
        show ?thesis
        proof (cases "relax g c 3 s3")
          case (Inl e3)
          then show ?thesis using assms(3) Inr r2 r3 relax_error[OF i3 Inl] unfolding u by simp
        next
          case r4: (Inr s4)
          then show ?thesis using assms(3) Inr r2 r3 unfolding u by simp
        qed
      qed
    qed
  qed
qed

subsection \<open>The result of the loop\<close>

definition loop_post :: "State \<Rightarrow> error + (Node option \<times> Search) \<Rightarrow> bool" where
  "loop_post g r =
     (case r of
        Inl e \<Rightarrow> e = GridIndexOutOfBounds \<and> \<not> in_bounds (end_pt g)
      | Inr (None, s') \<Rightarrow> head_inv g s' \<and> nodes s' = []
      | Inr (Some cur, s') \<Rightarrow>
          mid_inv g (end_pt g) 0 s' \<and> pos cur = end_pt g \<and> cost cur = dist s' (end_pt g))"

lemma dijkstra_loop_step:
  assumes inv: "head_inv g s" and ne: "nodes s \<noteq> []"
  defines "cur \<equiv> nodes s ! find_min_index (nodes s)"
  shows "dijkstra_loop g s =
     (if pos cur = end_pt g then Inr (Some cur, popped s)
      else case explore g (pos cur) [0..<4] (popped s) of
             Inl e \<Rightarrow> Inl e
           | Inr s2 \<Rightarrow> dijkstra_loop g s2)"
proof -
  note p = pop_mid_inv[OF inv ne, folded cur_def]
  have eq: "(px (pos cur) = px (end_pt g) \<and> py (pos cur) = py (end_pt g)) \<longleftrightarrow> pos cur = end_pt g"
    by (rule point_eq_iff)
  have pp: "s\<lparr>nodes := remove_node (nodes s) (find_min_index (nodes s)),
            visited := (visited s)(pos cur := True)\<rparr> = popped s"
    by (simp add: popped_def cur_def)
  show ?thesis
    apply (subst dijkstra_loop.simps)
    unfolding Let_def cur_def[symmetric] eq
    using ne p(2,3) by (simp add: popped_def cur_def)
qed

lemma dijkstra_loop_post:
  assumes "head_inv g s"
  shows "loop_post g (dijkstra_loop g s)"
  using assms
proof (induction g s rule: dijkstra_loop.induct)
  case (1 g s)
  show ?case
  proof (cases "nodes s = []")
    case True
    then have "dijkstra_loop g s = Inr (None, s)" by (subst dijkstra_loop.simps) simp
    then show ?thesis using "1.prems" True by (simp add: loop_post_def)
  next
    case ne: False
    define cur where "cur = nodes s ! find_min_index (nodes s)"
    note p = pop_mid_inv[OF "1.prems" ne, folded cur_def]
    note st = dijkstra_loop_step[OF "1.prems" ne, folded cur_def]
    show ?thesis
    proof (cases "pos cur = end_pt g")
      case True
      then show ?thesis using st p by (simp add: loop_post_def)
    next
      case ce: False
      show ?thesis
      proof (cases "explore g (pos cur) [0..<4] (popped s)")
        case (Inl e)
        then show ?thesis
          using st ce explore_errors[OF p(1) ce Inl] by (simp add: loop_post_def)
      next
        case (Inr s2)
        have h: "head_inv g s2"
          using explore_mid_inv[OF p(1) ce Inr] ce by (rule mid_head_inv)
        have eq: "\<not> (px (pos cur) = px (end_pt g) \<and> py (pos cur) = py (end_pt g))"
          using ce point_eq_iff by blast
        have "loop_post g (dijkstra_loop g s2)"
          using "1.IH"(2)[OF ne refl refl refl refl _ _ refl _ _ h, folded cur_def] p(2,3) eq Inr
          by (simp add: popped_def cur_def)
        then show ?thesis using st ce Inr by simp
      qed
    qed
  qed
qed

section \<open>Path reconstruction\<close>

text \<open>The cells that the reconstruction collects: \<open>p\<close>, its parent, and so on for \<open>n\<close> steps.\<close>

fun back_chain :: "(Point \<Rightarrow> Point) \<Rightarrow> nat \<Rightarrow> Point \<Rightarrow> Point list" where
  "back_chain par 0 p = [p]"
| "back_chain par (Suc n) p = p # back_chain par n (par p)"

definition tree_inv :: "State \<Rightarrow> Search \<Rightarrow> bool" where
  "tree_inv g s \<longleftrightarrow> queue_ok s \<and> disc_ok s \<and> levels_ok s \<and> tree_ok g s"

lemma tree_inv_parent:
  assumes "tree_inv g s" "discovered s p" "p \<noteq> start g"
  shows "discovered s (parent s p)" "dist s (parent s p) = dist s p - 1"
    "adjacent (parent s p) p" "open_cell g p" "parent s p \<noteq> end_pt g" "0 < dist s p"
proof -
  have t: "visited s (parent s p)" "adjacent (parent s p) p"
    "dist s p = dist s (parent s p) + 1" "open_cell g p" "parent s p \<noteq> end_pt g"
    using assms unfolding tree_inv_def tree_ok_def by blast+
  show d: "discovered s (parent s p)" using t(1) assms(1) by (auto simp: tree_inv_def disc_ok_def)
  show "dist s (parent s p) = dist s p - 1" using t(3) by simp
  show "adjacent (parent s p) p" "open_cell g p" "parent s p \<noteq> end_pt g" by fact+
  have "0 \<le> dist s (parent s p)" using d assms(1) unfolding tree_inv_def levels_ok_def by blast
  then show "0 < dist s p" using t(3) by simp
qed

lemma tree_inv_start:
  assumes "tree_inv g s"
  shows "dist s (start g) = 0" "discovered s (start g)"
  using assms by (auto simp: tree_inv_def tree_ok_def discovered_def INT_MAX_def)

lemma tree_inv_zero:
  assumes "tree_inv g s" "discovered s p" "dist s p = 0"
  shows "p = start g"
  using tree_inv_parent(6)[OF assms(1,2)] assms(3) by auto

lemma tree_inv_in_bounds:
  assumes "tree_inv g s" "discovered s p"
  shows "in_bounds p"
  using assms discovered_in_bounds by (auto simp: tree_inv_def)

lemma walk_back_chain:
  assumes "tree_inv g s"
  shows "discovered s p \<Longrightarrow> dist s p = int d \<Longrightarrow> length acc + d < CAPACITY \<Longrightarrow>
         walk_back g (parent s) p acc = Inr (acc @ back_chain (parent s) d p)"
proof (induction d arbitrary: p acc)
  case 0
  then have p: "p = start g" using tree_inv_zero[OF assms] by simp
  have "in_bounds p" using tree_inv_in_bounds[OF assms 0(1)] .
  then have "px p \<noteq> -1 \<and> py p \<noteq> -1" by (auto simp: in_bounds_def)
  then show ?case using 0(3) p by (subst walk_back.simps) simp
next
  case (Suc d)
  have ps: "p \<noteq> start g" using Suc.prems(2) tree_inv_start(1)[OF assms] by auto
  then have ne: "\<not> (px p = px (start g) \<and> py p = py (start g))"
    using point_eq_iff by blast
  have ib: "in_bounds p" using tree_inv_in_bounds[OF assms Suc.prems(1)] .
  then have m: "px p \<noteq> -1 \<and> py p \<noteq> -1" by (auto simp: in_bounds_def)
  note par = tree_inv_parent[OF assms Suc.prems(1) ps]
  have "walk_back g (parent s) (parent s p) (acc @ [p])
      = Inr ((acc @ [p]) @ back_chain (parent s) d (parent s p))"
    using Suc.prems par(2) by (intro Suc.IH[OF par(1)]) auto
  moreover have "walk_back g (parent s) p acc = walk_back g (parent s) (parent s p) (acc @ [p])"
    using m ne ib Suc.prems(3) by (subst walk_back.simps) auto
  ultimately show ?case by simp
qed

lemma back_chain_props:
  assumes "tree_inv g s"
  shows "discovered s p \<Longrightarrow> dist s p = int d \<Longrightarrow>
     length (back_chain (parent s) d p) = Suc d \<and>
     hd (back_chain (parent s) d p) = p \<and>
     last (back_chain (parent s) d p) = start g \<and>
     successively (\<lambda>a b. adjacent b a) (back_chain (parent s) d p) \<and>
     (\<forall>q \<in> set (butlast (back_chain (parent s) d p)). open_cell g q) \<and>
     (\<forall>q \<in> set (tl (back_chain (parent s) d p)). q \<noteq> end_pt g) \<and>
     (\<forall>q \<in> set (back_chain (parent s) d p). in_bounds q \<and> dist s q \<le> int d) \<and>
     distinct (back_chain (parent s) d p)"
proof (induction d arbitrary: p)
  case 0
  then have p: "p = start g" using tree_inv_zero[OF assms] by simp
  have "in_bounds p" using tree_inv_in_bounds[OF assms 0(1)] .
  then show ?case using p 0 by simp
next
  case (Suc d)
  have ps: "p \<noteq> start g" using Suc.prems(2) tree_inv_start(1)[OF assms] by auto
  have ib: "in_bounds p" using tree_inv_in_bounds[OF assms Suc.prems(1)] .
  note par = tree_inv_parent[OF assms Suc.prems(1) ps]
  let ?xs = "back_chain (parent s) d (parent s p)"
  have dp: "dist s (parent s p) = int d" using par(2) Suc.prems(2) by simp
  note ih = Suc.IH[OF par(1) dp]
  have ne: "?xs \<noteq> []" using ih by auto
  have hd: "hd ?xs = parent s p" using ih by simp
  have 1: "length (p # ?xs) = Suc (Suc d)" using ih by simp
  have 3: "last (p # ?xs) = start g" using ih ne by simp
  have 4: "successively (\<lambda>a b. adjacent b a) (p # ?xs)"
    using ih ne hd par(3) by (cases ?xs) auto
  have 5: "\<forall>q \<in> set (butlast (p # ?xs)). open_cell g q"
    using ih ne par(4) by simp
  have 6: "\<forall>q \<in> set (tl (p # ?xs)). q \<noteq> end_pt g"
  proof
    fix q assume "q \<in> set (tl (p # ?xs))"
    then have "q = hd ?xs \<or> q \<in> set (tl ?xs)" using ne by (cases ?xs) auto
    then show "q \<noteq> end_pt g" using ih hd par(5) by auto
  qed
  have 7: "\<forall>q \<in> set (p # ?xs). in_bounds q \<and> dist s q \<le> int (Suc d)"
    using ih ib Suc.prems(2) by auto
  have "p \<notin> set ?xs" using ih Suc.prems(2) by auto
  then have 8: "distinct (p # ?xs)" using ih by simp
  show ?case using 1 3 4 5 6 7 8 by simp
qed

lemma rev_by_index: "map (\<lambda>i. xs ! (length xs - 1 - i)) [0..<length xs] = rev xs"
  by (rule nth_equalityI) (simp_all add: rev_nth)

section \<open>Soundness and minimality of the search\<close>

text \<open>The walks the search can follow: from the source, by axial moves, through cells that
  pass the test of the neighbour loop. The source itself is not tested.\<close>

definition open_walk :: "State \<Rightarrow> Point list \<Rightarrow> bool" where
  "open_walk g ps \<longleftrightarrow>
     ps \<noteq> [] \<and> hd ps = start g \<and> successively adjacent ps \<and> (\<forall>p \<in> set (tl ps). open_cell g p)"

lemma open_walk_single: "open_walk g [p] \<longleftrightarrow> p = start g"
  by (auto simp: open_walk_def)

lemma open_walk_snoc:
  assumes "qs \<noteq> []"
  shows "open_walk g (qs @ [v]) \<longleftrightarrow> open_walk g qs \<and> adjacent (last qs) v \<and> open_cell g v"
  using assms by (auto simp: open_walk_def successively_append_iff)

lemma mid_inv_tree: "mid_inv g c k s \<Longrightarrow> tree_inv g s"
  by (simp add: mid_inv_def tree_inv_def)

lemma head_inv_tree: "head_inv g s \<Longrightarrow> tree_inv g s"
  by (simp add: head_inv_def tree_inv_def)

lemma found_minimal_aux:
  assumes inv: "mid_inv g (end_pt g) 0 s"
  shows "open_walk g ps \<Longrightarrow>
     (visited s (last ps) \<and> dist s (last ps) \<le> int (length ps) - 1) \<or>
     dist s (end_pt g) \<le> int (length ps) - 1"
proof (induction ps rule: rev_induct)
  case Nil
  then show ?case by (simp add: open_walk_def)
next
  case (snoc v qs)
  have d: "disc_ok s" and q: "queue_ok s" and om: "order_mid (end_pt g) s"
    and ex: "explored_but g s (end_pt g)"
    using inv by (auto simp: mid_inv_def)
  have inq: "\<And>p. discovered s p \<Longrightarrow> \<not> visited s p \<Longrightarrow> dist s (end_pt g) \<le> dist s p"
  proof -
    fix p assume "discovered s p" "\<not> visited s p"
    then obtain m where "m \<in> set (nodes s)" "pos m = p" using d by (auto simp: disc_ok_def)
    then show "dist s (end_pt g) \<le> dist s p"
      using q om by (auto simp: queue_ok_def order_mid_def)
  qed
  show ?case
  proof (cases "qs = []")
    case True
    then have v: "v = start g" using snoc.prems by (simp add: open_walk_single)
    note st = tree_inv_start[OF mid_inv_tree[OF inv]]
    show ?thesis
    proof (cases "visited s v")
      case True
      then show ?thesis using v st \<open>qs = []\<close> by simp
    next
      case False
      then show ?thesis using inq[of v] v st \<open>qs = []\<close> by simp
    qed
  next
    case False
    then have w: "open_walk g qs" "adjacent (last qs) v" "open_cell g v"
      using snoc.prems by (simp_all add: open_walk_snoc)
    let ?u = "last qs"
    from snoc.IH[OF w(1)] show ?thesis
    proof
      assume u: "visited s ?u \<and> dist s ?u \<le> int (length qs) - 1"
      show ?thesis
      proof (cases "?u = end_pt g")
        case True
        then show ?thesis using u by simp
      next
        case False
        then have "settled g s ?u v" using ex u w(2) by (auto simp: explored_but_def)
        then have dv: "discovered s v" "dist s v \<le> dist s ?u + 1"
          using w(3) by (auto simp: settled_def)
        show ?thesis
        proof (cases "visited s v")
          case True
          then show ?thesis using dv u by simp
        next
          case False
          then show ?thesis using inq[OF dv(1)] dv(2) u by simp
        qed
      qed
    next
      assume "dist s (end_pt g) \<le> int (length qs) - 1"
      then show ?thesis by simp
    qed
  qed
qed

lemma not_found_aux:
  assumes inv: "head_inv g s" and em: "nodes s = []"
  shows "open_walk g ps \<Longrightarrow> visited s (last ps)"
proof (induction ps rule: rev_induct)
  case Nil
  then show ?case by (simp add: open_walk_def)
next
  case (snoc v qs)
  have d: "disc_ok s"
    and ex: "\<forall>u v. visited s u \<and> u \<noteq> end_pt g \<and> adjacent u v \<longrightarrow> settled g s u v"
    and ve: "\<not> visited s (end_pt g)"
    using inv by (auto simp: head_inv_def)
  have dv: "\<And>p. discovered s p \<Longrightarrow> visited s p" using d em by (simp add: disc_ok_def)
  show ?case
  proof (cases "qs = []")
    case True
    then have v: "v = start g" using snoc.prems by (simp add: open_walk_single)
    then show ?thesis using dv tree_inv_start(2)[OF head_inv_tree[OF inv]] by simp
  next
    case False
    then have w: "open_walk g qs" "adjacent (last qs) v" "open_cell g v"
      using snoc.prems by (simp_all add: open_walk_snoc)
    have u: "visited s (last qs)" using snoc.IH[OF w(1)] .
    then have "last qs \<noteq> end_pt g" using ve by auto
    then have "settled g s (last qs) v" using ex u w(2) by blast
    then show ?thesis using w(3) dv by (simp add: settled_def)
  qed
qed

definition shortest_open_walk :: "State \<Rightarrow> Path \<Rightarrow> bool" where
  "shortest_open_walk g path \<longleftrightarrow>
     open_walk g (points path) \<and> last (points path) = end_pt g \<and>
     path_cost path = int (length (points path)) - 1 \<and>
     path_length path = int (length (points path)) \<and>
     (\<forall>ps. open_walk g ps \<and> last ps = end_pt g \<longrightarrow> path_cost path \<le> int (length ps) - 1) \<and>
     distinct (points path) \<and> (\<forall>p \<in> set (points path). in_bounds p)"

definition search_post :: "State \<Rightarrow> error + Path \<Rightarrow> bool" where
  "search_post g r =
     (case r of
        Inl e \<Rightarrow> e = GridIndexOutOfBounds \<and> \<not> in_bounds (end_pt g)
      | Inr path \<Rightarrow>
          (path = no_path \<and> (\<forall>ps. open_walk g ps \<longrightarrow> last ps \<noteq> end_pt g)) \<or>
          shortest_open_walk g path)"

lemma found_path:
  assumes inv: "mid_inv g (end_pt g) 0 s" and cur: "cost cur = dist s (end_pt g)"
  shows "\<exists>rp. walk_back g (parent s) (end_pt g) [] = Inr rp \<and>
     shortest_open_walk g \<lparr>points = rev rp, path_length = int (length rp), path_cost = cost cur\<rparr>"
proof -
  let ?E = "end_pt g"
  note ti = mid_inv_tree[OF inv]
  note dc = mid_discovered_c[OF inv]
  have lv: "dist s ?E + 1 \<le> int CAPACITY"
    using inv dc(1) by (intro levels_bound) (auto simp: mid_inv_def)
  have nn: "0 \<le> dist s ?E" using inv dc(1) unfolding mid_inv_def levels_ok_def by blast
  define d where "d = nat (dist s ?E)"
  have dd: "dist s ?E = int d" using nn by (simp add: d_def)
  let ?xs = "back_chain (parent s) d ?E"
  have wb: "walk_back g (parent s) ?E [] = Inr ?xs"
    using walk_back_chain[OF ti dc(1) dd, of "[]"] lv dd by simp
  note bc = back_chain_props[OF ti dc(1) dd]
  have ne: "?xs \<noteq> []" using bc by auto
  have 1: "open_walk g (rev ?xs)"
    unfolding open_walk_def
  proof (intro conjI)
    show "rev ?xs \<noteq> []" using ne by simp
    show "hd (rev ?xs) = start g" using bc ne by (simp add: hd_rev)
    show "successively adjacent (rev ?xs)" using bc by (simp add: successively_rev)
    have "butlast (rev (rev ?xs)) = rev (tl (rev ?xs))" by (rule butlast_rev)
    then have "tl (rev ?xs) = rev (butlast ?xs)" by (simp add: rev_swap)
    then show "\<forall>p \<in> set (tl (rev ?xs)). open_cell g p" using bc by simp
  qed
  have 2: "last (rev ?xs) = ?E" using bc ne by (simp add: last_rev)
  have 3: "cost cur = int (length (rev ?xs)) - 1" using bc cur dd by simp
  have 5: "\<forall>ps. open_walk g ps \<and> last ps = ?E \<longrightarrow> cost cur \<le> int (length ps) - 1"
  proof (intro allI impI)
    fix ps assume a: "open_walk g ps \<and> last ps = ?E"
    then show "cost cur \<le> int (length ps) - 1"
      using found_minimal_aux[OF inv, of ps] cur by auto
  qed
  have 6: "distinct (rev ?xs)" "\<forall>p \<in> set (rev ?xs). in_bounds p" using bc by simp_all
  show ?thesis
    using wb 1 2 3 5 6 by (simp add: shortest_open_walk_def)
qed

lemma run_search_post:
  assumes "in_bounds (start g)"
  shows "search_post g (run_search g)"
proof -
  have lp: "loop_post g (dijkstra_loop g (init_search g))"
    using init_head_inv[OF assms] by (rule dijkstra_loop_post)
  show ?thesis
  proof (cases "dijkstra_loop g (init_search g)")
    case (Inl e)
    then show ?thesis using lp assms by (simp add: loop_post_def search_post_def run_search_def)
  next
    case (Inr r)
    obtain res s where r: "r = (res, s)" by (cases r)
    show ?thesis
    proof (cases res)
      case None
      then have "head_inv g s" "nodes s = []" using lp Inr r by (simp_all add: loop_post_def)
      then have "\<forall>ps. open_walk g ps \<longrightarrow> last ps \<noteq> end_pt g"
        using not_found_aux[of g s] by (metis head_inv_def)
      then show ?thesis using None Inr r assms by (simp add: search_post_def run_search_def)
    next
      case (Some cur)
      then have "mid_inv g (end_pt g) 0 s" "cost cur = dist s (end_pt g)"
        using lp Inr r by (simp_all add: loop_post_def)
      from found_path[OF this] obtain rp where
        "walk_back g (parent s) (end_pt g) [] = Inr rp"
        "shortest_open_walk g \<lparr>points = rev rp, path_length = int (length rp), path_cost = cost cur\<rparr>"
        by blast
      moreover have "map (\<lambda>i. rp ! (length rp - Suc i)) [0..<length rp] = rev rp"
        using rev_by_index[of rp] by simp
      ultimately show ?thesis
        using Some Inr r assms by (simp add: search_post_def run_search_def)
    qed
  qed
qed

section \<open>Legal paths and the results of \<^verbatim>\<open>dijkstra_find_path\<close>\<close>

text \<open>A legal path, in the words of the specification: a 4-connected sequence of cells from the
  source to the sink, every cell in bounds, and every cell other than the sink neither a Wall
  nor carrying a rank label. Its cost is its number of edges.\<close>

definition legal_path :: "State \<Rightarrow> Point list \<Rightarrow> bool" where
  "legal_path g ps \<longleftrightarrow>
     ps \<noteq> [] \<and> hd ps = start g \<and> last ps = end_pt g \<and> successively adjacent ps \<and>
     (\<forall>p \<in> set ps. in_bounds p \<and>
        (p = end_pt g \<or> (grid g p \<noteq> CELL_WALL \<and> grid_path_type g p = CELL_EMPTY)))"

lemma find_path_cases:
  "dijkstra_find_path g = Inr no_path \<or> dijkstra_find_path g = Inl GridIndexOutOfBounds \<or>
   (in_bounds (start g) \<and> dijkstra_find_path g = run_search g)"
  unfolding dijkstra_find_path_def run_search_def by auto

lemma find_path_valid_start:
  assumes "is_valid_position g (px (start g)) (py (start g))"
  shows "dijkstra_find_path g = run_search g" "in_bounds (start g)"
  using assms by (simp_all add: dijkstra_find_path_def is_valid_position_iff)

lemma shortest_open_walk_found:
  assumes "shortest_open_walk g path"
  shows "path_cost path \<noteq> -1" "path \<noteq> no_path"
proof -
  have "points path \<noteq> []" using assms by (simp add: shortest_open_walk_def open_walk_def)
  then have "0 \<le> path_cost path" using assms by (cases "points path") (auto simp: shortest_open_walk_def)
  then show "path_cost path \<noteq> -1" by simp
  then show "path \<noteq> no_path" by (auto simp: no_path_def)
qed

lemma find_path_found:
  assumes "dijkstra_find_path g = Inr path" "path_cost path \<noteq> -1"
  shows "shortest_open_walk g path"
proof -
  have np: "path \<noteq> no_path" using assms(2) by (auto simp: no_path_def)
  then have "in_bounds (start g)" "run_search g = Inr path"
    using find_path_cases[of g] assms(1) by auto
  then show ?thesis using run_search_post[of g] np by (simp add: search_post_def)
qed

lemma legal_path_open_walk:
  assumes "legal_path g ps"
  shows "open_walk g ps" "last ps = end_pt g"
  using assms unfolding legal_path_def open_walk_def open_cell_def
  by (auto dest: list.set_sel(2))

lemma open_walk_legal_path:
  assumes "open_walk g ps" "last ps = end_pt g" "open_cell g (start g)"
  shows "legal_path g ps"
proof -
  have ne: "ps \<noteq> []" and hd: "hd ps = start g" using assms(1) by (auto simp: open_walk_def)
  have "set ps = insert (hd ps) (set (tl ps))" using ne by (cases ps) auto
  then have "\<forall>p \<in> set ps. open_cell g p"
    using assms(1,3) hd by (auto simp: open_walk_def)
  then show ?thesis
    using assms(1,2) unfolding legal_path_def open_walk_def open_cell_def by auto
qed

section \<open>Claims about a single search\<close>

definition demo_state :: State where
  "demo_state =
     \<lparr>grid = (\<lambda>p. if p = mk_point 0 0 then CELL_START
                   else if p = mk_point 1 0 then CELL_END else CELL_EMPTY),
      grid_path_type = (\<lambda>p. CELL_EMPTY),
      start = mk_point 0 0, end_pt = mk_point 1 0,
      start_selected = True, end_selected = True, paths_found_and_drawn = True\<rparr>"

definition demo_path :: Path where
  "demo_path = \<lparr>points = [mk_point 0 0, mk_point 1 0], path_length = 2, path_cost = 1\<rparr>"

definition blocked_state :: State where
  "blocked_state =
     \<lparr>grid = (\<lambda>p. if p = mk_point 0 0 then CELL_WALL else CELL_EMPTY),
      grid_path_type = (\<lambda>p. if p = mk_point 1 0 then CELL_PATH_1 else CELL_EMPTY),
      start = mk_point 0 0, end_pt = mk_point 1 0,
      start_selected = True, end_selected = True, paths_found_and_drawn = True\<rparr>"

definition ranked_state :: State where
  "ranked_state =
     \<lparr>grid = (\<lambda>p. if p = mk_point 0 0 then CELL_START
                   else if p = mk_point 1 0 then CELL_END else CELL_EMPTY),
      grid_path_type = (\<lambda>p. if p = mk_point 0 0 \<or> p = mk_point 1 0 then CELL_PATH_1
                             else CELL_EMPTY),
      start = mk_point 0 0, end_pt = mk_point 1 0,
      start_selected = True, end_selected = True, paths_found_and_drawn = True\<rparr>"


definition source_wall_state :: State where
  "source_wall_state =
     \<lparr>grid = (\<lambda>p. if p = mk_point 0 0 then CELL_WALL else CELL_EMPTY),
      grid_path_type = (\<lambda>p. CELL_EMPTY),
      start = mk_point 0 0, end_pt = mk_point 1 0,
      start_selected = True, end_selected = True, paths_found_and_drawn = True\<rparr>"

text \<open>Claim C1, as stated: for every grid state, source and sink the search returns a path of
  minimal cost among the legal paths, or cost -1 and length 0 when there is none. It fails in
  \<open>blocked_state\<close>, where the source is a Wall and the sink carries a rank label: the test
  of the source lets the search run, and it returns a path of cost 1 through the Wall.\<close>

theorem C1_counterexample:
  "dijkstra_find_path blocked_state = Inr demo_path \<and> path_cost demo_path = 1 \<and>
   \<not> legal_path blocked_state (points demo_path)"
  by code_simp

text \<open>Claim C1, amended: when the sink is in bounds and the source is a valid position (or the
  source is blocked, differs from the sink, and the sink carries no rank label), the search
  returns a legal path whose cost is its number of edges and is minimal among all legal paths,
  or it returns cost -1 and length 0 and there is no legal path.\<close>

theorem C1_minimal_cost_or_none:
  assumes "in_bounds (end_pt g)"
    and "is_valid_position g (px (start g)) (py (start g)) \<or>
         (start g \<noteq> end_pt g \<and> grid_path_type g (end_pt g) = CELL_EMPTY)"
  shows "\<exists>path. dijkstra_find_path g = Inr path \<and>
           ((legal_path g (points path) \<and> path_cost path = int (length (points path)) - 1 \<and>
             (\<forall>ps. legal_path g ps \<longrightarrow> path_cost path \<le> int (length ps) - 1)) \<or>
            (path_cost path = -1 \<and> path_length path = 0 \<and> (\<forall>ps. \<not> legal_path g ps)))"
proof (cases "is_valid_position g (px (start g)) (py (start g))")
  case True
  note vs = find_path_valid_start[OF True]
  have oc: "open_cell g (start g)" using True by (simp add: is_valid_position_iff open_cell_def)
  have post: "search_post g (run_search g)" using vs(2) by (rule run_search_post)
  show ?thesis
  proof (cases "run_search g")
    case (Inl e)
    then show ?thesis using post assms(1) by (simp add: search_post_def)
  next
    case (Inr path)
    then consider (none) "path = no_path" "\<forall>ps. open_walk g ps \<longrightarrow> last ps \<noteq> end_pt g"
      | (found) "shortest_open_walk g path"
      using post by (auto simp: search_post_def)
    then show ?thesis
    proof cases
      case none
      then have "\<forall>ps. \<not> legal_path g ps" using legal_path_open_walk by blast
      then show ?thesis using Inr vs(1) none(1) by (simp add: no_path_def)
    next
      case found
      then have "legal_path g (points path)"
        using oc by (intro open_walk_legal_path) (auto simp: shortest_open_walk_def)
      moreover have "path_cost path = int (length (points path)) - 1"
        using found by (simp add: shortest_open_walk_def)
      moreover have "\<forall>ps. legal_path g ps \<longrightarrow> path_cost path \<le> int (length ps) - 1"
        using found legal_path_open_walk unfolding shortest_open_walk_def by blast
      ultimately show ?thesis using Inr vs(1) by simp
    qed
  qed
next
  case False
  then have se: "start g \<noteq> end_pt g" "grid_path_type g (end_pt g) = CELL_EMPTY"
    using assms(2) by auto
  have r: "dijkstra_find_path g = Inr no_path"
    using False se(2) assms(1) by (simp add: dijkstra_find_path_def)
  have "\<forall>ps. \<not> legal_path g ps"
  proof (intro allI notI)
    fix ps assume l: "legal_path g ps"
    then have "start g \<in> set ps" unfolding legal_path_def by (metis hd_in_set)
    then have "is_valid_position g (px (start g)) (py (start g))"
      using l se(1) unfolding legal_path_def is_valid_position_iff by blast
    then show False using False by simp
  qed
  then show ?thesis using r by (simp add: no_path_def)
qed

theorem C1_witness:
  "in_bounds (end_pt demo_state) \<and>
   is_valid_position demo_state (px (start demo_state)) (py (start demo_state)) \<and>
   (\<exists>path. dijkstra_find_path demo_state = Inr path \<and>
      ((legal_path demo_state (points path) \<and> path_cost path = int (length (points path)) - 1 \<and>
        (\<forall>ps. legal_path demo_state ps \<longrightarrow> path_cost path \<le> int (length ps) - 1)) \<or>
       (path_cost path = -1 \<and> path_length path = 0 \<and> (\<forall>ps. \<not> legal_path demo_state ps))))"
proof -
  have 1: "in_bounds (end_pt demo_state)" by code_simp
  have 2: "is_valid_position demo_state (px (start demo_state)) (py (start demo_state))"
    by code_simp
  show ?thesis using C1_minimal_cost_or_none[of demo_state] 1 2 by blast
qed

text \<open>Claim C4: every path returned with a cost other than -1 is a sequence of points that
  starts at Start, ends at End, in which consecutive points differ by exactly one unit in
  exactly one axis, and whose cost is its length minus one.\<close>

theorem C4_path_is_chain:
  assumes "dijkstra_find_path g = Inr path" and "path_cost path \<noteq> -1"
  shows "points path \<noteq> [] \<and> hd (points path) = start g \<and> last (points path) = end_pt g \<and>
         successively (\<lambda>a b. \<bar>px a - px b\<bar> + \<bar>py a - py b\<bar> = 1) (points path) \<and>
         path_length path = int (length (points path)) \<and>
         path_cost path = path_length path - 1"
proof -
  have f: "shortest_open_walk g path" using assms by (rule find_path_found)
  then have "successively adjacent (points path)"
    by (simp add: shortest_open_walk_def open_walk_def)
  then have "successively (\<lambda>a b. \<bar>px a - px b\<bar> + \<bar>py a - py b\<bar> = 1) (points path)"
    by (simp add: adjacent_def[abs_def])
  then show ?thesis
    using f by (simp add: shortest_open_walk_def open_walk_def)
qed

theorem C4_witness:
  "dijkstra_find_path demo_state = Inr demo_path \<and> path_cost demo_path \<noteq> -1 \<and>
   points demo_path \<noteq> [] \<and> hd (points demo_path) = start demo_state \<and>
   last (points demo_path) = end_pt demo_state \<and>
   successively (\<lambda>a b. \<bar>px a - px b\<bar> + \<bar>py a - py b\<bar> = 1) (points demo_path) \<and>
   path_length demo_path = int (length (points demo_path)) \<and>
   path_cost demo_path = path_length demo_path - 1"
proof -
  have 1: "dijkstra_find_path demo_state = Inr demo_path" by code_simp
  have 2: "path_cost demo_path \<noteq> -1" by code_simp
  show ?thesis using C4_path_is_chain[OF 1 2] 1 2 by simp
qed

text \<open>Claim C5, as stated: a source that is a Wall or carries a rank label makes the search
  fail at once, whatever the sink is. It fails in \<open>ranked_state\<close>, where source and sink
  both carry a rank label: the search runs and returns a path of cost 1 and length 2.\<close>

theorem C5_counterexample:
  "grid_path_type ranked_state (start ranked_state) \<noteq> CELL_EMPTY \<and>
   dijkstra_find_path ranked_state = Inr demo_path \<and>
   path_cost demo_path = 1 \<and> path_length demo_path = 2"
  by code_simp

text \<open>Claim C5, amended: when the source cell is a Wall or carries a rank label, and the sink
  cell is in bounds and carries no rank label, the search fails at once with cost -1 and
  length 0.\<close>

theorem C5_blocked_source_fails:
  assumes "grid g (start g) = CELL_WALL \<or> grid_path_type g (start g) \<noteq> CELL_EMPTY"
    and "in_bounds (end_pt g)" and "grid_path_type g (end_pt g) = CELL_EMPTY"
  shows "\<exists>path. dijkstra_find_path g = Inr path \<and> path_cost path = -1 \<and> path_length path = 0"
proof -
  have "\<not> is_valid_position g (px (start g)) (py (start g))"
    using assms(1) by (auto simp: is_valid_position_iff)
  then have "dijkstra_find_path g = Inr no_path"
    using assms(2,3) by (simp add: dijkstra_find_path_def)
  then show ?thesis by (simp add: no_path_def)
qed

theorem C5_witness:
  "grid source_wall_state (start source_wall_state) = CELL_WALL \<and>
   in_bounds (end_pt source_wall_state) \<and>
   grid_path_type source_wall_state (end_pt source_wall_state) = CELL_EMPTY \<and>
   (\<exists>path. dijkstra_find_path source_wall_state = Inr path \<and>
      path_cost path = -1 \<and> path_length path = 0)"
proof -
  have 1: "grid source_wall_state (start source_wall_state) = CELL_WALL" by code_simp
  have 2: "in_bounds (end_pt source_wall_state)" by code_simp
  have 3: "grid_path_type source_wall_state (end_pt source_wall_state) = CELL_EMPTY" by code_simp
  show ?thesis using C5_blocked_source_fails[of source_wall_state] 1 2 3 by blast
qed



section \<open>The loop over the K paths\<close>

text \<open>The interior of a path: its points other than Start and End. \<open>marked s t M\<close> is the
  state \<open>s\<close> with the label \<open>t\<close> written to the cells of \<open>M\<close>.\<close>

definition interior :: "State \<Rightarrow> Path \<Rightarrow> Point set" where
  "interior s path = set (points path) - {start s, end_pt s}"

definition marked :: "State \<Rightarrow> CellType \<Rightarrow> Point set \<Rightarrow> State" where
  "marked s t M = s\<lparr>grid_path_type := (\<lambda>p. if p \<in> M then t else grid_path_type s p)\<rparr>"

lemma marked_sel [simp]:
  "grid (marked s t M) = grid s" "start (marked s t M) = start s"
  "end_pt (marked s t M) = end_pt s" "start_selected (marked s t M) = start_selected s"
  "end_selected (marked s t M) = end_selected s"
  "paths_found_and_drawn (marked s t M) = paths_found_and_drawn s"
  "grid_path_type (marked s t M) p = (if p \<in> M then t else grid_path_type s p)"
  by (simp_all add: marked_def)

lemma marked_empty: "marked s t {} = s"
  by (simp add: marked_def)

lemma marked_marked:
  "marked (marked s t M) t N = marked s t (M \<union> N)"
proof -
  have "(\<lambda>p. if p \<in> N then t else if p \<in> M then t else grid_path_type s p)
      = (\<lambda>p. if p \<in> M \<union> N then t else grid_path_type s p)"
    by (intro ext) auto
  then show ?thesis by (simp add: marked_def cong: if_cong)
qed

lemma marked_single:
  "s\<lparr>grid_path_type := (grid_path_type s)(p := t)\<rparr> = marked s t {p}"
proof -
  have "(grid_path_type s)(p := t) = (\<lambda>q. if q \<in> {p} then t else grid_path_type s q)"
    by (intro ext) auto
  then show ?thesis by (simp add: marked_def)
qed

lemma mark_path_marked:
  "mark_path t path idxs s = Inr s' \<Longrightarrow>
     s' = marked s t ((\<lambda>i. points path ! i) ` set idxs - {start s, end_pt s})"
proof (induction idxs arbitrary: s)
  case Nil
  then show ?case by (simp add: marked_empty)
next
  case (Cons i idxs)
  let ?p = "points path ! i"
  have e: "(px ?p = px (start s) \<and> py ?p = py (start s)) \<longleftrightarrow> ?p = start s"
    "(px ?p = px (end_pt s) \<and> py ?p = py (end_pt s)) \<longleftrightarrow> ?p = end_pt s"
    by (rule point_eq_iff)+
  show ?case
  proof (cases "?p = start s \<or> ?p = end_pt s")
    case True
    then have "mark_path t path idxs s = Inr s'"
      using Cons.prems by (simp add: Let_def e)
    from Cons.IH[OF this] show ?thesis using True by (auto intro: arg_cong[where f="marked s t"])
  next
    case False
    then have "mark_path t path idxs (marked s t {?p}) = Inr s'"
      using Cons.prems by (simp add: Let_def e marked_single split: if_splits)
    from Cons.IH[OF this] have "s' = marked s t ({?p} \<union>
        ((\<lambda>i. points path ! i) ` set idxs - {start s, end_pt s}))"
      by (simp add: marked_marked)
    moreover have "{?p} \<union> ((\<lambda>i. points path ! i) ` set idxs - {start s, end_pt s})
        = (\<lambda>i. points path ! i) ` set (i # idxs) - {start s, end_pt s}"
      using False by auto
    ultimately show ?thesis by simp
  qed
qed

lemma mark_path_total:
  "\<forall>i \<in> set idxs. in_bounds (points path ! i) \<Longrightarrow> \<exists>s'. mark_path t path idxs s = Inr s'"
proof (induction idxs arbitrary: s)
  case Nil
  then show ?case by simp
next
  case (Cons i idxs)
  then show ?case by (simp add: Let_def)
qed

lemma points_by_index:
  assumes "path_length path = int (length (points path))"
  shows "(\<lambda>i. points path ! i) ` set [0..<nat (path_length path)] = set (points path)"
  using assms by (auto simp: in_set_conv_nth)

text \<open>One pass of the loop, whatever the state: it either stops the loop and changes nothing,
  or reports a shortest path and marks its interior.\<close>

lemma path_iteration_cases:
  assumes "path_iteration i s = Inr (s', ev)"
  obtains (stop) "s' = s" "ev = NoMorePaths" "dijkstra_find_path s = Inr no_path"
  | (found) path where "ev = PathFound (i + 1) path" "dijkstra_find_path s = Inr path"
      "shortest_open_walk s path" "s' = marked s (current_path_type i) (interior s path)"
proof (cases "dijkstra_find_path s")
  case (Inl e)
  then show thesis using assms by (simp add: path_iteration_def)
next
  case (Inr path)
  show thesis
  proof (cases "path_cost path = -1")
    case True
    have "path = no_path"
    proof (rule ccontr)
      assume np: "path \<noteq> no_path"
      then have "in_bounds (start s)" "run_search s = Inr path"
        using find_path_cases[of s] Inr by auto
      then have "shortest_open_walk s path"
        using run_search_post[of s] np by (simp add: search_post_def)
      then show False using shortest_open_walk_found(1) True by blast
    qed
    then show thesis using assms Inr True by (intro stop) (auto simp: path_iteration_def)
  next
    case False
    have f: "shortest_open_walk s path" using Inr False by (rule find_path_found)
    then have len: "path_length path = int (length (points path))"
      by (simp add: shortest_open_walk_def)
    have m: "mark_path (current_path_type i) path [0..<nat (path_length path)] s = Inr s'"
      and ev: "ev = PathFound (i + 1) path"
      using assms Inr False by (auto simp: path_iteration_def split: sum.splits)
    have "s' = marked s (current_path_type i) (interior s path)"
      using mark_path_marked[OF m] unfolding points_by_index[OF len] interior_def .
    then show thesis using ev Inr f by (intro found) auto
  qed
qed

lemma path_iteration_total:
  assumes "is_valid_position s (px (start s)) (py (start s))" and "in_bounds (end_pt s)"
  shows "\<exists>s' ev. path_iteration i s = Inr (s', ev)"
proof (cases "dijkstra_find_path s")
  case (Inl e)
  then have "run_search s = Inl e" using find_path_valid_start(1)[OF assms(1)] by simp
  then show ?thesis
    using run_search_post[OF find_path_valid_start(2)[OF assms(1)]] assms(2)
    by (simp add: search_post_def)
next
  case (Inr path)
  show ?thesis
  proof (cases "path_cost path = -1")
    case True
    then show ?thesis using Inr by (simp add: path_iteration_def)
  next
    case False
    have f: "shortest_open_walk s path" using Inr False by (rule find_path_found)
    then have "\<forall>i \<in> set [0..<nat (path_length path)]. in_bounds (points path ! i)"
      by (simp add: shortest_open_walk_def)
    from mark_path_total[OF this] obtain s' where
      "mark_path (current_path_type i) path [0..<nat (path_length path)] s = Inr s'" by blast
    then show ?thesis using Inr False by (simp add: path_iteration_def)
  qed
qed

text \<open>The paths reported in a list of events, in the order of their ranks.\<close>

fun found_paths :: "event list \<Rightarrow> Path list" where
  "found_paths [] = []"
| "found_paths (PathFound r path # evs) = path # found_paths evs"
| "found_paths (NoMorePaths # evs) = found_paths evs"

definition min_bound :: "State \<Rightarrow> int \<Rightarrow> bool" where
  "min_bound s c \<longleftrightarrow> (\<forall>ps. open_walk s ps \<and> last ps = end_pt s \<longrightarrow> c \<le> int (length ps) - 1)"

lemma current_path_type_not_empty: "i < K_PATHS \<Longrightarrow> current_path_type i \<noteq> CELL_EMPTY"
  by (simp add: K_PATHS_def current_path_type_def)

lemma interior_marked [simp]: "interior (marked s t M) path = interior s path"
  by (simp add: interior_def)

lemma open_cell_marked:
  assumes "t \<noteq> CELL_EMPTY" "open_cell (marked s t M) p"
  shows "open_cell s p"
  using assms by (auto simp: open_cell_def split: if_splits)

lemma open_walk_marked:
  assumes "t \<noteq> CELL_EMPTY" "open_walk (marked s t M) ps"
  shows "open_walk s ps"
  using assms open_cell_marked[OF assms(1)] unfolding open_walk_def by auto

lemma valid_marked:
  assumes "is_valid_position s (px (start s)) (py (start s))"
  shows "is_valid_position (marked s t (interior s path))
           (px (start (marked s t (interior s path)))) (py (start (marked s t (interior s path))))"
  using assms by (simp add: is_valid_position_iff interior_def)

lemma find_paths_step:
  assumes "find_paths i s = Inr (s', evs)"
  obtains (finished) "\<not> i < K_PATHS" "s' = s" "evs = []"
  | (stop) "i < K_PATHS" "s' = s" "evs = [NoMorePaths]" "dijkstra_find_path s = Inr no_path"
  | (found) path evs1 where "i < K_PATHS" "dijkstra_find_path s = Inr path"
      "shortest_open_walk s path"
      "find_paths (Suc i) (marked s (current_path_type i) (interior s path)) = Inr (s', evs1)"
      "evs = PathFound (i + 1) path # evs1"
      "path_iteration i s =
         Inr (marked s (current_path_type i) (interior s path), PathFound (i + 1) path)"
proof (cases "i < K_PATHS")
  case False
  then show thesis using assms by (intro finished) (simp_all add: find_paths.simps[of i s])
next
  case True
  show thesis
  proof (cases "path_iteration i s")
    case (Inl e)
    then show thesis using assms True by (simp add: find_paths.simps[of i s])
  next
    case (Inr r)
    obtain s1 ev where r: "r = (s1, ev)" by (cases r)
    from Inr[unfolded r] show thesis
    proof (cases rule: path_iteration_cases)
      case stop
      then show thesis
        using assms True Inr r by (intro that(2)) (simp_all add: find_paths.simps[of i s])
    next
      case (found path)
      from assms True Inr r found(1) obtain evs1 where
        "find_paths (Suc i) s1 = Inr (s', evs1)" "evs = PathFound (i + 1) path # evs1"
        by (auto simp: find_paths.simps[of i s] split: sum.splits)
      then show thesis using True found Inr r by (intro that(3)[of path evs1]) simp_all
    qed
  qed
qed

lemma find_paths_total:
  assumes "is_valid_position s (px (start s)) (py (start s))" "in_bounds (end_pt s)"
  shows "\<exists>s' evs. find_paths i s = Inr (s', evs)"
  using assms
proof (induction "K_PATHS - i" arbitrary: i s)
  case 0
  then show ?case by (simp add: find_paths.simps[of i s])
next
  case (Suc n)
  then have i: "i < K_PATHS" by simp
  from path_iteration_total[OF Suc.prems] obtain s1 ev where
    it: "path_iteration i s = Inr (s1, ev)" by blast
  from it show ?case
  proof (cases rule: path_iteration_cases)
    case stop
    then show ?thesis using it i by (simp add: find_paths.simps[of i s])
  next
    case (found path)
    have "\<exists>s' evs. find_paths (Suc i) s1 = Inr (s', evs)"
      unfolding found(4) using Suc.hyps(2) Suc.prems
      by (intro Suc.hyps(1) valid_marked) auto
    then show ?thesis using it i found(1) by (auto simp: find_paths.simps[of i s])
  qed
qed

lemma find_paths_sorted:
  "find_paths i s = Inr (s', evs) \<Longrightarrow> min_bound s c \<Longrightarrow>
     sorted (map path_cost (found_paths evs)) \<and> (\<forall>p \<in> set (found_paths evs). c \<le> path_cost p)"
proof (induction "K_PATHS - i" arbitrary: i s c evs)
  case 0
  then have "evs = []" by (simp add: find_paths.simps[of i s])
  then show ?case by simp
next
  case (Suc n)
  from Suc.prems(1) show ?case
  proof (cases rule: find_paths_step)
    case finished
    then show ?thesis by simp
  next
    case stop
    then show ?thesis by simp
  next
    case (found path evs1)
    let ?s1 = "marked s (current_path_type i) (interior s path)"
    have c1: "c \<le> path_cost path"
      using found(3) Suc.prems(2) unfolding shortest_open_walk_def min_bound_def by auto
    have "min_bound ?s1 (path_cost path)"
      unfolding min_bound_def
    proof (intro allI impI)
      fix ps assume "open_walk ?s1 ps \<and> last ps = end_pt ?s1"
      then have "open_walk s ps" "last ps = end_pt s"
        using open_walk_marked[OF current_path_type_not_empty[OF found(1)]] by auto
      then show "path_cost path \<le> int (length ps) - 1"
        using found(3) unfolding shortest_open_walk_def by blast
    qed
    from Suc.hyps(1)[OF _ found(4) this] Suc.hyps(2)
    have ih: "sorted (map path_cost (found_paths evs1))"
      "\<forall>p \<in> set (found_paths evs1). path_cost path \<le> path_cost p" by auto
    show ?thesis using ih c1 found(5) by auto
  qed
qed

lemma find_paths_disjoint:
  "find_paths i s = Inr (s', evs) \<Longrightarrow>
     (\<forall>r p. PathFound r p \<in> set evs \<longrightarrow> (\<forall>q \<in> interior s p. grid_path_type s q = CELL_EMPTY)) \<and>
     (\<forall>r1 p1 r2 p2. PathFound r1 p1 \<in> set evs \<and> PathFound r2 p2 \<in> set evs \<and> r1 \<noteq> r2 \<longrightarrow>
        interior s p1 \<inter> interior s p2 = {})"
proof (induction "K_PATHS - i" arbitrary: i s evs)
  case 0
  then have "evs = []" by (simp add: find_paths.simps[of i s])
  then show ?case by simp
next
  case (Suc n)
  from Suc.prems(1) show ?case
  proof (cases rule: find_paths_step)
    case finished
    then show ?thesis by simp
  next
    case stop
    then show ?thesis by simp
  next
    case (found path evs1)
    let ?t = "current_path_type i"
    let ?s1 = "marked s ?t (interior s path)"
    have t: "?t \<noteq> CELL_EMPTY" using found(1) by (rule current_path_type_not_empty)
    from Suc.hyps(1)[OF _ found(4)] Suc.hyps(2)
    have ih1: "\<And>r p q. PathFound r p \<in> set evs1 \<Longrightarrow> q \<in> interior s p \<Longrightarrow>
                 grid_path_type ?s1 q = CELL_EMPTY"
      and ih2: "\<And>r1 p1 r2 p2. PathFound r1 p1 \<in> set evs1 \<Longrightarrow> PathFound r2 p2 \<in> set evs1 \<Longrightarrow>
                 r1 \<noteq> r2 \<Longrightarrow> interior s p1 \<inter> interior s p2 = {}"
      by auto
    have later: "\<And>r p q. PathFound r p \<in> set evs1 \<Longrightarrow> q \<in> interior s p \<Longrightarrow>
        grid_path_type s q = CELL_EMPTY \<and> q \<notin> interior s path"
      using ih1 t by (fastforce split: if_splits)
    have head: "\<And>q. q \<in> interior s path \<Longrightarrow> grid_path_type s q = CELL_EMPTY"
    proof -
      fix q assume q: "q \<in> interior s path"
      have ow: "open_walk s (points path)" using found(3) by (simp add: shortest_open_walk_def)
      then have "set (points path) = insert (start s) (set (tl (points path)))"
        unfolding open_walk_def by (cases "points path") auto
      then have "q \<in> set (tl (points path))" using q by (auto simp: interior_def)
      then have "open_cell s q" using ow by (simp add: open_walk_def)
      then show "grid_path_type s q = CELL_EMPTY" using q by (auto simp: open_cell_def interior_def)
    qed
    have 1: "\<forall>r p. PathFound r p \<in> set evs \<longrightarrow> (\<forall>q \<in> interior s p. grid_path_type s q = CELL_EMPTY)"
      using head later found(5) by auto
    have 2: "\<forall>r1 p1 r2 p2. PathFound r1 p1 \<in> set evs \<and> PathFound r2 p2 \<in> set evs \<and> r1 \<noteq> r2 \<longrightarrow>
        interior s p1 \<inter> interior s p2 = {}"
    proof (intro allI impI)
      fix r1 p1 r2 p2
      assume a: "PathFound r1 p1 \<in> set evs \<and> PathFound r2 p2 \<in> set evs \<and> r1 \<noteq> r2"
      then consider
          (tt) "PathFound r1 p1 \<in> set evs1" "PathFound r2 p2 \<in> set evs1"
        | (ht) "p1 = path" "PathFound r2 p2 \<in> set evs1"
        | (th) "PathFound r1 p1 \<in> set evs1" "p2 = path"
        using found(5) by auto
      then show "interior s p1 \<inter> interior s p2 = {}"
      proof cases
        case tt
        then show ?thesis using ih2 a by blast
      next
        case ht
        then show ?thesis using later by blast
      next
        case th
        then show ?thesis using later by blast
      qed
    qed
    show ?thesis using 1 2 by blast
  qed
qed

text \<open>The reported paths are the results of the successive searches, each run on the state
  the marking of the previous path has left.\<close>

lemma path_iteration_mark:
  assumes "path_iteration i s = Inr (s1, PathFound r path)"
    and "dijkstra_find_path s = Inr path" and "path_cost path \<noteq> -1"
  shows "mark_path (current_path_type i) path [0..<nat (path_length path)] s = Inr s1"
  using assms by (simp add: path_iteration_def split: sum.splits)

lemma find_paths_chain:
  "find_paths i s = Inr (s', evs) \<Longrightarrow> i \<le> K_PATHS \<Longrightarrow>
     \<exists>ps ss. length ss = Suc (length ps) \<and> ss ! 0 = s \<and> ss ! length ps = s' \<and>
       (\<forall>j < length ps.
          dijkstra_find_path (ss ! j) = Inr (ps ! j) \<and> path_cost (ps ! j) \<noteq> -1 \<and>
          mark_path (current_path_type (i + j)) (ps ! j) [0..<nat (path_length (ps ! j))] (ss ! j)
            = Inr (ss ! Suc j)) \<and>
       ((evs = map2 PathFound [Suc i..<Suc i + length ps] ps \<and> i + length ps = K_PATHS) \<or>
        (evs = map2 PathFound [Suc i..<Suc i + length ps] ps @ [NoMorePaths] \<and>
         i + length ps < K_PATHS \<and> dijkstra_find_path s' = Inr no_path))"
proof (induction "K_PATHS - i" arbitrary: i s evs)
  case 0
  then have i: "i = K_PATHS" by simp
  have e: "evs = []" "s' = s" using "0.prems"(1) i by (cases rule: find_paths_step; simp)+
  show ?case
    apply (rule exI[of _ "[]"])
    apply (rule exI[of _ "[s]"])
    using e i by simp
next
  case (Suc n)
  from Suc.prems(1) show ?case
  proof (cases rule: find_paths_step)
    case finished
    then show ?thesis using Suc.hyps(2) by simp
  next
    case stop
    show ?thesis
      apply (rule exI[of _ "[]"])
      apply (rule exI[of _ "[s]"])
      using stop by simp
  next
    case (found path evs1)
    let ?s1 = "marked s (current_path_type i) (interior s path)"
    have n: "n = K_PATHS - Suc i" "Suc i \<le> K_PATHS" using Suc.hyps(2) found(1) by simp_all
    from Suc.hyps(1)[OF n(1) found(4) n(2)]
    obtain ps ss where ss: "length ss = Suc (length ps)" "ss ! 0 = ?s1" "ss ! length ps = s'"
      and st: "\<forall>j < length ps.
          dijkstra_find_path (ss ! j) = Inr (ps ! j) \<and> path_cost (ps ! j) \<noteq> -1 \<and>
          mark_path (current_path_type (Suc i + j)) (ps ! j) [0..<nat (path_length (ps ! j))]
            (ss ! j) = Inr (ss ! Suc j)"
      and sh: "(evs1 = map2 PathFound [Suc (Suc i)..<Suc (Suc i) + length ps] ps \<and>
          Suc i + length ps = K_PATHS) \<or>
       (evs1 = map2 PathFound [Suc (Suc i)..<Suc (Suc i) + length ps] ps @ [NoMorePaths] \<and>
          Suc i + length ps < K_PATHS \<and> dijkstra_find_path s' = Inr no_path)"
      by blast
    have c: "path_cost path \<noteq> -1" using found(3) by (rule shortest_open_walk_found)
    have m: "mark_path (current_path_type i) path [0..<nat (path_length path)] s = Inr ?s1"
      using found(6) found(2) c by (rule path_iteration_mark)
    have u: "[Suc i..<Suc i + length (path # ps)] = Suc i # [Suc (Suc i)..<Suc (Suc i) + length ps]"
      by (simp add: upt_rec)
    have e: "evs = PathFound (Suc i) path # evs1" using found(5) by simp
    have mp: "\<And>xs. map2 PathFound (Suc i # xs) (path # ps) = PathFound (Suc i) path # map2 PathFound xs ps"
      by simp
    have l: "i + length (path # ps) = Suc i + length ps" by simp
    have 1: "length (s # ss) = Suc (length (path # ps))" using ss(1) by simp
    have 2: "(s # ss) ! 0 = s" by simp
    have 3: "(s # ss) ! length (path # ps) = s'" using ss(3) by simp
    have 4: "\<forall>j < length (path # ps).
          dijkstra_find_path ((s # ss) ! j) = Inr ((path # ps) ! j) \<and>
          path_cost ((path # ps) ! j) \<noteq> -1 \<and>
          mark_path (current_path_type (i + j)) ((path # ps) ! j)
            [0..<nat (path_length ((path # ps) ! j))] ((s # ss) ! j) = Inr ((s # ss) ! Suc j)"
    proof (intro allI impI)
      fix j assume j: "j < length (path # ps)"
      show "dijkstra_find_path ((s # ss) ! j) = Inr ((path # ps) ! j) \<and>
          path_cost ((path # ps) ! j) \<noteq> -1 \<and>
          mark_path (current_path_type (i + j)) ((path # ps) ! j)
            [0..<nat (path_length ((path # ps) ! j))] ((s # ss) ! j) = Inr ((s # ss) ! Suc j)"
      proof (cases j)
        case 0
        then show ?thesis using found(2) c m ss(2) by simp
      next
        case (Suc j')
        then have "j' < length ps" using j by simp
        then show ?thesis using st Suc by simp
      qed
    qed
    have 5: "(evs = map2 PathFound [Suc i..<Suc i + length (path # ps)] (path # ps) \<and>
          i + length (path # ps) = K_PATHS) \<or>
       (evs = map2 PathFound [Suc i..<Suc i + length (path # ps)] (path # ps) @ [NoMorePaths] \<and>
          i + length (path # ps) < K_PATHS \<and> dijkstra_find_path s' = Inr no_path)"
      unfolding u mp l e using sh by (elim disjE) simp_all
    show ?thesis
      apply (rule exI[of _ "path # ps"])
      apply (rule exI[of _ "s # ss"])
      using 1 2 3 4 5 by blast
  qed
qed

section \<open>Claims about the loop over the K paths\<close>

text \<open>A state with room for exactly two disjoint paths: the cells (0..2, 0..1) are free and are
  closed in by the Walls (3,0), (3,1), (0,2), (1,2), (2,2) and the border of the grid; Start is
  (0,0) and End is (2,0). The first search finds the path along the top row and marks (1,0);
  the second has to take the lower row and marks its three cells; the third fails.\<close>

definition corridor_state :: State where
  "corridor_state =
     \<lparr>grid = (\<lambda>p. if p = mk_point 0 0 then CELL_START
                   else if p = mk_point 2 0 then CELL_END
                   else if p = mk_point 3 0 \<or> p = mk_point 3 1 \<or> p = mk_point 0 2 \<or>
                           p = mk_point 1 2 \<or> p = mk_point 2 2 then CELL_WALL
                   else CELL_EMPTY),
      grid_path_type = (\<lambda>p. CELL_EMPTY),
      start = mk_point 0 0, end_pt = mk_point 2 0,
      start_selected = True, end_selected = True, paths_found_and_drawn = True\<rparr>"

definition corridor_path1 :: Path where
  "corridor_path1 =
     \<lparr>points = [mk_point 0 0, mk_point 1 0, mk_point 2 0], path_length = 3, path_cost = 2\<rparr>"

definition corridor_path2 :: Path where
  "corridor_path2 =
     \<lparr>points = [mk_point 0 0, mk_point 0 1, mk_point 1 1, mk_point 2 1, mk_point 2 0],
      path_length = 5, path_cost = 4\<rparr>"

lemma corridor_events:
  "(case find_paths 0 corridor_state of Inl e \<Rightarrow> [] | Inr (s', evs) \<Rightarrow> evs) =
     [PathFound 1 corridor_path1, PathFound 2 corridor_path2, NoMorePaths]"
  by code_simp

lemma corridor_marks:
  "(case find_paths 0 corridor_state of
      Inl e \<Rightarrow> False
    | Inr (s', evs) \<Rightarrow>
        grid_path_type s' (mk_point 1 0) = CELL_PATH_1 \<and>
        grid_path_type s' (mk_point 1 1) = CELL_PATH_2)"
  by code_simp

lemma corridor_designated:
  "is_valid_position corridor_state (px (start corridor_state)) (py (start corridor_state))"
  "in_bounds (end_pt corridor_state)"
  by code_simp+

text \<open>Claim C2: the loop started with a valid Start and an End in bounds terminates without
  error, and any two paths it reports under different ranks have disjoint interiors, the
  interior of a path being its points other than Start and End.\<close>

theorem C2_interiors_disjoint:
  assumes "is_valid_position s (px (start s)) (py (start s))" and "in_bounds (end_pt s)"
  shows "\<exists>s' evs. find_paths 0 s = Inr (s', evs) \<and>
           (\<forall>r1 p1 r2 p2. PathFound r1 p1 \<in> set evs \<and> PathFound r2 p2 \<in> set evs \<and> r1 \<noteq> r2 \<longrightarrow>
              (set (points p1) - {start s, end_pt s}) \<inter>
              (set (points p2) - {start s, end_pt s}) = {})"
proof -
  from find_paths_total[OF assms] obtain s' evs where r: "find_paths 0 s = Inr (s', evs)"
    by blast
  from find_paths_disjoint[OF r] show ?thesis
    using r unfolding interior_def by blast
qed

theorem C2_witness:
  "is_valid_position corridor_state (px (start corridor_state)) (py (start corridor_state)) \<and>
   in_bounds (end_pt corridor_state) \<and>
   (case find_paths 0 corridor_state of Inl e \<Rightarrow> [] | Inr (s', evs) \<Rightarrow> evs) =
     [PathFound 1 corridor_path1, PathFound 2 corridor_path2, NoMorePaths] \<and>
   mk_point 1 0 \<in> set (points corridor_path1) - {start corridor_state, end_pt corridor_state} \<and>
   mk_point 1 1 \<in> set (points corridor_path2) - {start corridor_state, end_pt corridor_state} \<and>
   (set (points corridor_path1) - {start corridor_state, end_pt corridor_state}) \<inter>
   (set (points corridor_path2) - {start corridor_state, end_pt corridor_state}) = {}"
proof -
  note h = corridor_designated
  from C2_interiors_disjoint[OF h] obtain s' evs where
    r: "find_paths 0 corridor_state = Inr (s', evs)"
    and d: "\<And>r1 p1 r2 p2. PathFound r1 p1 \<in> set evs \<Longrightarrow> PathFound r2 p2 \<in> set evs \<Longrightarrow>
              r1 \<noteq> r2 \<Longrightarrow>
              (set (points p1) - {start corridor_state, end_pt corridor_state}) \<inter>
              (set (points p2) - {start corridor_state, end_pt corridor_state}) = {}"
    by blast
  have evs: "evs = [PathFound 1 corridor_path1, PathFound 2 corridor_path2, NoMorePaths]"
    using corridor_events r by simp
  have 1: "PathFound 1 corridor_path1 \<in> set evs" "PathFound 2 corridor_path2 \<in> set evs"
    by (simp_all add: evs)
  have 2: "(1::nat) \<noteq> 2" by simp
  have i1: "mk_point 1 0 \<in> set (points corridor_path1) - {start corridor_state, end_pt corridor_state}"
    by (simp add: corridor_path1_def corridor_state_def mk_point_def)
  have i2: "mk_point 1 1 \<in> set (points corridor_path2) - {start corridor_state, end_pt corridor_state}"
    by (simp add: corridor_path2_def corridor_state_def mk_point_def)
  show ?thesis using h corridor_events i1 i2 d[OF 1 2] by blast
qed

text \<open>Claim C3: the costs of the paths the loop reports, in the order of their ranks, are
  non-decreasing.\<close>

theorem C3_costs_non_decreasing:
  assumes "is_valid_position s (px (start s)) (py (start s))" and "in_bounds (end_pt s)"
  shows "\<exists>s' evs. find_paths 0 s = Inr (s', evs) \<and> sorted (map path_cost (found_paths evs))"
proof -
  from find_paths_total[OF assms] obtain s' evs where r: "find_paths 0 s = Inr (s', evs)"
    by blast
  have "min_bound s 0"
    unfolding min_bound_def open_walk_def by (auto simp: Suc_le_eq)
  from find_paths_sorted[OF r this] show ?thesis using r by blast
qed

theorem C3_witness:
  "is_valid_position corridor_state (px (start corridor_state)) (py (start corridor_state)) \<and>
   in_bounds (end_pt corridor_state) \<and>
   (\<exists>s' evs. find_paths 0 corridor_state = Inr (s', evs) \<and>
      grid_path_type s' (mk_point 1 0) = CELL_PATH_1 \<and>
      map path_cost (found_paths evs) = [2, 4] \<and>
      sorted (map path_cost (found_paths evs)))"
proof -
  note h = corridor_designated
  from C3_costs_non_decreasing[OF h] obtain s' evs where
    r: "find_paths 0 corridor_state = Inr (s', evs)"
    and s: "sorted (map path_cost (found_paths evs))"
    by blast
  have evs: "evs = [PathFound 1 corridor_path1, PathFound 2 corridor_path2, NoMorePaths]"
    using corridor_events r by simp
  have c: "map path_cost (found_paths evs) = [2, 4]"
    by (simp add: evs corridor_path1_def corridor_path2_def)
  have m: "grid_path_type s' (mk_point 1 0) = CELL_PATH_1"
    using corridor_marks r by simp
  have "\<exists>s' evs. find_paths 0 corridor_state = Inr (s', evs) \<and>
      grid_path_type s' (mk_point 1 0) = CELL_PATH_1 \<and>
      map path_cost (found_paths evs) = [2, 4] \<and>
      sorted (map path_cost (found_paths evs))"
  proof (intro exI conjI)
    show "find_paths 0 corridor_state = Inr (s', evs)" by (rule r)
    show "grid_path_type s' (mk_point 1 0) = CELL_PATH_1" by (rule m)
    show "map path_cost (found_paths evs) = [2, 4]" by (rule c)
    show "sorted (map path_cost (found_paths evs))" by (rule s)
  qed
  then show ?thesis using h by simp
qed

text \<open>Claim C7: the loop never fails and runs at most \<open>K_PATHS\<close> searches, one event each.
  The searches run one after the other, each on the state the marking of the previous path
  has left. As long as a search returns a cost other than -1 its path is reported under the
  next rank; the first search that returns cost -1, of rank r, ends the loop at once,
  with exactly the r - 1 paths of ranks 1 to r - 1 reported before it and the state as that
  search found it. Without such a search the loop reports \<open>K_PATHS\<close> paths. The last part
  says it from the side of the search: whenever the search of a pass returns cost -1, that
  pass is the last, and the report is the paths before it followed by the end of the loop.\<close>

theorem C7_early_stop:
  assumes "is_valid_position s (px (start s)) (py (start s))" and "in_bounds (end_pt s)"
  shows "\<exists>s' evs ps ss. find_paths 0 s = Inr (s', evs) \<and>
           length evs \<le> K_PATHS \<and> length ps \<le> K_PATHS \<and>
           length ss = Suc (length ps) \<and> ss ! 0 = s \<and> ss ! length ps = s' \<and>
           (\<forall>j < length ps.
              dijkstra_find_path (ss ! j) = Inr (ps ! j) \<and> path_cost (ps ! j) \<noteq> -1 \<and>
              mark_path (current_path_type j) (ps ! j) [0..<nat (path_length (ps ! j))] (ss ! j)
                = Inr (ss ! Suc j)) \<and>
           ((evs = map2 PathFound [1..<Suc (length ps)] ps \<and> length ps = K_PATHS) \<or>
            (evs = map2 PathFound [1..<Suc (length ps)] ps @ [NoMorePaths] \<and>
             length ps < K_PATHS \<and>
             (\<exists>q. dijkstra_find_path s' = Inr q \<and> path_cost q = -1))) \<and>
           (\<forall>j q. j \<le> length ps \<and> j < K_PATHS \<and>
                  dijkstra_find_path (ss ! j) = Inr q \<and> path_cost q = -1 \<longrightarrow>
                  j = length ps \<and> ss ! j = s' \<and>
                  evs = map2 PathFound [1..<Suc j] ps @ [NoMorePaths])"
proof -
  from find_paths_total[OF assms] obtain s' evs where r: "find_paths 0 s = Inr (s', evs)"
    by blast
  from find_paths_chain[OF r] obtain ps ss where
    ss: "length ss = Suc (length ps)" "ss ! 0 = s" "ss ! length ps = s'"
    and st: "\<forall>j < length ps.
          dijkstra_find_path (ss ! j) = Inr (ps ! j) \<and> path_cost (ps ! j) \<noteq> -1 \<and>
          mark_path (current_path_type (0 + j)) (ps ! j) [0..<nat (path_length (ps ! j))] (ss ! j)
            = Inr (ss ! Suc j)"
    and sh: "(evs = map2 PathFound [Suc 0..<Suc 0 + length ps] ps \<and> 0 + length ps = K_PATHS) \<or>
     (evs = map2 PathFound [Suc 0..<Suc 0 + length ps] ps @ [NoMorePaths] \<and>
      0 + length ps < K_PATHS \<and> dijkstra_find_path s' = Inr no_path)"
    by auto
  have np: "path_cost no_path = -1" by (simp add: no_path_def)
  have le: "length evs \<le> K_PATHS" "length ps \<le> K_PATHS"
    using sh by auto
  have st': "\<forall>j < length ps.
          dijkstra_find_path (ss ! j) = Inr (ps ! j) \<and> path_cost (ps ! j) \<noteq> -1 \<and>
          mark_path (current_path_type j) (ps ! j) [0..<nat (path_length (ps ! j))] (ss ! j)
            = Inr (ss ! Suc j)"
    using st by simp
  have sh': "(evs = map2 PathFound [1..<Suc (length ps)] ps \<and> length ps = K_PATHS) \<or>
            (evs = map2 PathFound [1..<Suc (length ps)] ps @ [NoMorePaths] \<and>
             length ps < K_PATHS \<and>
             (\<exists>q. dijkstra_find_path s' = Inr q \<and> path_cost q = -1))"
    using sh np by auto
  have stop: "\<forall>j q. j \<le> length ps \<and> j < K_PATHS \<and>
                  dijkstra_find_path (ss ! j) = Inr q \<and> path_cost q = -1 \<longrightarrow>
                  j = length ps \<and> ss ! j = s' \<and>
                  evs = map2 PathFound [1..<Suc j] ps @ [NoMorePaths]"
  proof (intro allI impI)
    fix j q
    assume a: "j \<le> length ps \<and> j < K_PATHS \<and>
                  dijkstra_find_path (ss ! j) = Inr q \<and> path_cost q = -1"
    have "\<not> j < length ps"
    proof
      assume "j < length ps"
      then have "dijkstra_find_path (ss ! j) = Inr (ps ! j)" "path_cost (ps ! j) \<noteq> -1"
        using st' by blast+
      then show False using a by simp
    qed
    then have j: "j = length ps" using a by simp
    then have "length ps \<noteq> K_PATHS" using a by simp
    then have "evs = map2 PathFound [1..<Suc (length ps)] ps @ [NoMorePaths]"
      using sh' by blast
    then show "j = length ps \<and> ss ! j = s' \<and>
                  evs = map2 PathFound [1..<Suc j] ps @ [NoMorePaths]"
      using j ss(3) by simp
  qed
  show ?thesis
    apply (intro exI[of _ s'] exI[of _ evs] exI[of _ ps] exI[of _ ss])
    using r le ss st' sh' stop by blast
qed

theorem C7_witness:
  "is_valid_position corridor_state (px (start corridor_state)) (py (start corridor_state)) \<and>
   in_bounds (end_pt corridor_state) \<and>
   (\<exists>s' ss. find_paths 0 corridor_state =
              Inr (s', [PathFound 1 corridor_path1, PathFound 2 corridor_path2, NoMorePaths]) \<and>
      length ss = 3 \<and> ss ! 0 = corridor_state \<and> ss ! 2 = s' \<and>
      dijkstra_find_path (ss ! 0) = Inr corridor_path1 \<and>
      dijkstra_find_path (ss ! 1) = Inr corridor_path2 \<and>
      (\<exists>q. dijkstra_find_path s' = Inr q \<and> path_cost q = -1))"
proof -
  note h = corridor_designated
  from C7_early_stop[OF h] obtain s' evs ps ss where
    r: "find_paths 0 corridor_state = Inr (s', evs)"
    and ss: "length ss = Suc (length ps)" "ss ! 0 = corridor_state" "ss ! length ps = s'"
    and st: "\<And>j. j < length ps \<Longrightarrow> dijkstra_find_path (ss ! j) = Inr (ps ! j)"
    and sh: "(evs = map2 PathFound [1..<Suc (length ps)] ps \<and> length ps = K_PATHS) \<or>
            (evs = map2 PathFound [1..<Suc (length ps)] ps @ [NoMorePaths] \<and>
             length ps < K_PATHS \<and>
             (\<exists>q. dijkstra_find_path s' = Inr q \<and> path_cost q = -1))"
    by blast
  have evs: "evs = [PathFound 1 corridor_path1, PathFound 2 corridor_path2, NoMorePaths]"
    using corridor_events r by simp
  have len: "length evs = 3" by (simp add: evs)
  have lm: "length (map2 PathFound [1..<Suc (length ps)] ps) = length ps"
    by (simp del: upt_Suc)
  have "\<not> (evs = map2 PathFound [1..<Suc (length ps)] ps \<and> length ps = K_PATHS)"
  proof
    assume a: "evs = map2 PathFound [1..<Suc (length ps)] ps \<and> length ps = K_PATHS"
    then have "length evs = length ps" using lm by metis
    then show False using len a by (simp add: K_PATHS_def)
  qed
  with sh have stop: "evs = map2 PathFound [1..<Suc (length ps)] ps @ [NoMorePaths]"
    and q: "\<exists>q. dijkstra_find_path s' = Inr q \<and> path_cost q = -1"
    by blast+
  have "length evs = length (map2 PathFound [1..<Suc (length ps)] ps @ [NoMorePaths])"
    by (rule arg_cong[OF stop])
  also have "\<dots> = Suc (length ps)" unfolding length_append lm by simp
  finally have l2: "length ps = 2" using len by simp
  then obtain a b where ps: "ps = [a, b]"
    by (auto simp: length_Suc_conv numeral_2_eq_2)
  have "map2 PathFound [1..<Suc (length ps)] ps = [PathFound 1 a, PathFound 2 b]"
    by (simp add: ps upt_rec)
  then have ab: "a = corridor_path1" "b = corridor_path2" using stop evs by simp_all
  have s0: "dijkstra_find_path (ss ! 0) = Inr corridor_path1"
    and s1: "dijkstra_find_path (ss ! 1) = Inr corridor_path2"
    using st[of 0] st[of 1] ps ab by simp_all
  have 3: "length ss = 3" "ss ! 2 = s'" using ss l2 by simp_all
  show ?thesis using h r evs 3 ss(2) s0 s1 q by blast
qed

section \<open>The click handler and the reachable states\<close>

definition same_frame :: "State \<Rightarrow> State \<Rightarrow> bool" where
  "same_frame s s' \<longleftrightarrow>
     grid s' = grid s \<and> start s' = start s \<and> end_pt s' = end_pt s \<and>
     start_selected s' = start_selected s \<and> end_selected s' = end_selected s \<and>
     paths_found_and_drawn s' = paths_found_and_drawn s \<and>
     grid_path_type s' (start s) = grid_path_type s (start s) \<and>
     grid_path_type s' (end_pt s) = grid_path_type s (end_pt s)"

lemma same_frame_refl: "same_frame s s"
  by (simp add: same_frame_def)

lemma same_frame_trans: "same_frame s s1 \<Longrightarrow> same_frame s1 s2 \<Longrightarrow> same_frame s s2"
  by (simp add: same_frame_def)

lemma same_frame_marked: "same_frame s (marked s t (interior s path))"
  by (simp add: same_frame_def interior_def)

lemma path_iteration_frame:
  assumes "path_iteration i s = Inr (s', ev)"
  shows "same_frame s s'"
  using assms by (cases rule: path_iteration_cases) (simp_all add: same_frame_refl same_frame_marked)

lemma find_paths_frame:
  "find_paths i s = Inr (s', evs) \<Longrightarrow> same_frame s s'"
proof (induction "K_PATHS - i" arbitrary: i s evs)
  case 0
  from "0.prems" "0.hyps" show ?case
    by (cases rule: find_paths_step) (simp_all add: same_frame_refl)
next
  case (Suc n)
  from Suc.prems show ?case
  proof (cases rule: find_paths_step)
    case finished
    then show ?thesis by (simp add: same_frame_refl)
  next
    case stop
    then show ?thesis by (simp add: same_frame_refl)
  next
    case (found path evs1)
    have "same_frame (marked s (current_path_type i) (interior s path)) s'"
      using Suc.hyps(2) by (intro Suc.hyps(1)[OF _ found(4)]) simp
    then show ?thesis using same_frame_marked same_frame_trans by blast
  qed
qed

lemma loop_head_frame: "loop_head s0 i s \<Longrightarrow> same_frame s0 s"
proof (induction rule: loop_head.induct)
  case (loop_enter s0)
  then show ?case by (rule same_frame_refl)
next
  case (loop_next s0 i s s' r path)
  then show ?case using path_iteration_frame same_frame_trans by blast
qed

text \<open>The loop function ends in a state of the relation \<open>loop_head\<close>.\<close>

lemma find_paths_loop_head:
  "find_paths i s = Inr (s', evs) \<Longrightarrow> loop_head s0 i s \<Longrightarrow> \<exists>j. loop_head s0 j s'"
proof (induction "K_PATHS - i" arbitrary: i s evs)
  case 0
  from "0.prems"(1) "0.hyps" "0.prems"(2) show ?case
    by (cases rule: find_paths_step) auto
next
  case (Suc n)
  from Suc.prems(1) show ?case
  proof (cases rule: find_paths_step)
    case finished
    then show ?thesis using Suc.prems(2) by auto
  next
    case stop
    then show ?thesis using Suc.prems(2) by auto
  next
    case (found path evs1)
    have "loop_head s0 (Suc i) (marked s (current_path_type i) (interior s path))"
      using Suc.prems(2) found(1,6) by (rule loop_next)
    then show ?thesis using Suc.hyps(2) by (intro Suc.hyps(1)[OF _ found(4)]) simp_all
  qed
qed

text \<open>The state in which the click handler enters the loop over the K paths.\<close>

definition end_set :: "State \<Rightarrow> Point \<Rightarrow> State" where
  "end_set s gp = s\<lparr>end_pt := gp, grid := (grid s)(gp := CELL_END),
                     end_selected := True, paths_found_and_drawn := True\<rparr>"

definition click_rejected :: "State \<Rightarrow> Point \<Rightarrow> bool" where
  "click_rejected s gp \<longleftrightarrow>
     \<not> in_bounds gp \<or> paths_found_and_drawn s \<or> grid s gp = CELL_WALL"

lemma handle_click_unfold:
  "handle_click a b s =
     (let gp = screen_to_grid a b
      in if click_rejected s gp then Inr (s, [])
         else if \<not> start_selected s then
           Inr (s\<lparr>start := gp, grid := (grid s)(gp := CELL_START), start_selected := True\<rparr>, [])
         else if \<not> end_selected s \<and> gp \<noteq> start s then find_paths 0 (end_set s gp)
         else Inr (s, []))"
proof -
  have e: "(px (screen_to_grid a b) = px (start s) \<and> py (screen_to_grid a b) = py (start s))
      \<longleftrightarrow> screen_to_grid a b = start s"
    by (rule point_eq_iff)
  show ?thesis
    unfolding handle_click_def Let_def e click_rejected_def end_set_def in_bounds_def
    by auto
qed

definition reach_inv :: "State \<Rightarrow> bool" where
  "reach_inv s \<longleftrightarrow>
     (start_selected s \<longrightarrow>
        in_bounds (start s) \<and> grid s (start s) \<noteq> CELL_WALL \<and>
        grid_path_type s (start s) = CELL_EMPTY) \<and>
     (end_selected s \<longrightarrow>
        in_bounds (end_pt s) \<and> grid_path_type s (end_pt s) = CELL_EMPTY \<and> start_selected s) \<and>
     (\<not> end_selected s \<longrightarrow> (\<forall>p. in_bounds p \<longrightarrow> grid_path_type s p = CELL_EMPTY)) \<and>
     paths_found_and_drawn s = end_selected s"

lemma reach_inv_initialize: "reach_inv (initialize_grid walls s)"
  by (simp add: reach_inv_def initialize_grid_def)

lemma reach_inv_reset: "reach_inv (reset_grid s)"
  by (simp add: reach_inv_def reset_grid_def)

lemma end_set_valid:
  assumes "reach_inv s" "start_selected s" "\<not> end_selected s" "gp \<noteq> start s" "in_bounds gp"
  shows "is_valid_position (end_set s gp) (px (start (end_set s gp))) (py (start (end_set s gp)))"
    and "in_bounds (end_pt (end_set s gp))"
    and "grid_path_type (end_set s gp) (end_pt (end_set s gp)) = CELL_EMPTY"
  using assms by (auto simp: reach_inv_def end_set_def is_valid_position_iff)

lemma same_frame_valid:
  assumes "same_frame s s'" "is_valid_position s (px (start s)) (py (start s))"
  shows "is_valid_position s' (px (start s')) (py (start s'))"
  using assms by (simp add: same_frame_def is_valid_position_iff)

lemma reach_inv_click:
  assumes "reach_inv s" "handle_click a b s = Inr (s', evs)"
  shows "reach_inv s'"
proof -
  let ?gp = "screen_to_grid a b"
  consider (rej) "s' = s"
    | (first) "\<not> click_rejected s ?gp" "\<not> start_selected s"
        "s' = s\<lparr>start := ?gp, grid := (grid s)(?gp := CELL_START), start_selected := True\<rparr>"
    | (second) "\<not> click_rejected s ?gp" "start_selected s" "\<not> end_selected s" "?gp \<noteq> start s"
        "find_paths 0 (end_set s ?gp) = Inr (s', evs)"
    using assms(2) unfolding handle_click_unfold Let_def by (auto split: if_splits)
  then show ?thesis
  proof cases
    case rej
    then show ?thesis using assms(1) by simp
  next
    case first
    then show ?thesis using assms(1) by (auto simp: reach_inv_def click_rejected_def)
  next
    case second
    have ib: "in_bounds ?gp" using second(1) by (simp add: click_rejected_def)
    note v = end_set_valid[OF assms(1) second(2,3,4) ib]
    have f: "same_frame (end_set s ?gp) s'" using second(5) by (rule find_paths_frame)
    have "is_valid_position s' (px (start s')) (py (start s'))"
      using f v(1) by (rule same_frame_valid)
    then show ?thesis
      using f v(2,3) second(2) unfolding reach_inv_def same_frame_def
      by (simp add: is_valid_position_iff end_set_def)
  qed
qed

lemma reachable_inv: "reachable s \<Longrightarrow> reach_inv s"
proof (induction rule: reachable.induct)
  case (reach_boot walls)
  show ?case by (rule reach_inv_initialize)
next
  case (reach_click s a b s' evs)
  then show ?case using reach_inv_click by blast
next
  case (reach_key_R s walls)
  show ?case by (rule reach_inv_initialize)
next
  case (reach_key_C s)
  show ?case by (rule reach_inv_reset)
qed

definition wall_click_state :: State where
  "wall_click_state =
     \<lparr>grid = (\<lambda>p. if p = mk_point 0 0 then CELL_START
                   else if p = mk_point 1 0 then CELL_WALL else CELL_EMPTY),
      grid_path_type = (\<lambda>p. CELL_EMPTY),
      start = mk_point 0 0, end_pt = mk_point (-1) (-1),
      start_selected = True, end_selected = False, paths_found_and_drawn = False\<rparr>"

text \<open>The corridor of \<open>corridor_state\<close>, reached through the interface: the walls as
  \<^verbatim>\<open>initialize_grid\<close> draws them, the state after the click that selects (0,0) as Start, and
  the state in which the click on (2,0) enters the loop over the K paths.\<close>

definition corridor_walls :: "Point \<Rightarrow> bool" where
  "corridor_walls p \<longleftrightarrow>
     p = mk_point 3 0 \<or> p = mk_point 3 1 \<or> p = mk_point 0 2 \<or> p = mk_point 1 2 \<or>
     p = mk_point 2 2"

definition corridor_first :: State where
  "corridor_first =
     (initialize_grid corridor_walls boot_state)
       \<lparr>start := mk_point 0 0,
        grid := (grid (initialize_grid corridor_walls boot_state))(mk_point 0 0 := CELL_START),
        start_selected := True\<rparr>"

definition corridor_loop :: State where
  "corridor_loop =
     corridor_first\<lparr>end_pt := mk_point 2 0,
                    grid := (grid corridor_first)(mk_point 2 0 := CELL_END),
                    end_selected := True, paths_found_and_drawn := True\<rparr>"

lemma corridor_pass:
  "(case path_iteration 0 corridor_loop of
      Inl e \<Rightarrow> False
    | Inr (s2, ev) \<Rightarrow>
        ev = PathFound 1 corridor_path1 \<and> grid_path_type s2 (mk_point 1 0) = CELL_PATH_1)"
  by code_simp

lemma corridor_final:
  "(case find_paths 0 corridor_loop of
      Inl e \<Rightarrow> False
    | Inr (s', evs) \<Rightarrow>
        grid_path_type s' (mk_point 1 0) = CELL_PATH_1 \<and>
        grid_path_type s' (mk_point 1 1) = CELL_PATH_2)"
  by code_simp

lemma screen_to_grid_90_10: "screen_to_grid 90 10 = mk_point 2 0"
  by (simp add: screen_to_grid_def mk_point_def CELL_SIZE_def signed_divide_int_def)

lemma screen_to_grid_50_10: "screen_to_grid 50 10 = mk_point 1 0"
  by (simp add: screen_to_grid_def mk_point_def CELL_SIZE_def signed_divide_int_def)

lemma screen_to_grid_10_10: "screen_to_grid 10 10 = mk_point 0 0"
  by (simp add: screen_to_grid_def mk_point_def CELL_SIZE_def signed_divide_int_def)

text \<open>Claim C8, as stated: the designation of End fails if and only if the clicked point
  equals Start, is out of bounds, or End is already designated. It fails in
  \<open>wall_click_state\<close>: the click at the screen point (50, 10) falls on the Wall cell (1, 0),
  which is in bounds and is not Start, no End is designated, and the click is refused.\<close>

theorem C8_counterexample:
  "start_selected wall_click_state \<and> \<not> end_selected wall_click_state \<and>
   \<not> paths_found_and_drawn wall_click_state \<and>
   in_bounds (screen_to_grid 50 10) \<and> screen_to_grid 50 10 \<noteq> start wall_click_state \<and>
   handle_click 50 10 wall_click_state = Inr (wall_click_state, [])"
  unfolding handle_click_unfold Let_def screen_to_grid_50_10
  by (simp add: wall_click_state_def click_rejected_def in_bounds_def mk_point_def
      GRID_WIDTH_def GRID_HEIGHT_def)

text \<open>Claim C8, amended: once Start is selected, a click is refused if and only if the clicked
  point is out of bounds, is a Wall cell, equals Start, or End is already designated (the flag
  \<^verbatim>\<open>end_selected\<close> or \<^verbatim>\<open>paths_found_and_drawn\<close> is set). A refused click leaves the whole
  state unchanged and runs no search; any other click designates End and enters the loop
  over the K paths.\<close>

theorem C8_end_designation:
  assumes "start_selected s"
  shows "(handle_click a b s = Inr (s, []) \<longleftrightarrow>
            \<not> in_bounds (screen_to_grid a b) \<or> grid s (screen_to_grid a b) = CELL_WALL \<or>
            screen_to_grid a b = start s \<or> end_selected s \<or> paths_found_and_drawn s) \<and>
         (handle_click a b s \<noteq> Inr (s, []) \<longrightarrow>
            handle_click a b s =
              find_paths 0 (s\<lparr>end_pt := screen_to_grid a b,
                               grid := (grid s)(screen_to_grid a b := CELL_END),
                               end_selected := True, paths_found_and_drawn := True\<rparr>))"
proof -
  let ?gp = "screen_to_grid a b"
  let ?rej = "\<not> in_bounds ?gp \<or> grid s ?gp = CELL_WALL \<or> ?gp = start s \<or> end_selected s \<or>
      paths_found_and_drawn s"
  have r: "?rej \<Longrightarrow> handle_click a b s = Inr (s, [])"
    using assms unfolding handle_click_unfold Let_def click_rejected_def by auto
  have n: "\<not> ?rej \<Longrightarrow> handle_click a b s = find_paths 0 (end_set s ?gp)"
    using assms unfolding handle_click_unfold Let_def click_rejected_def by auto
  have c: "\<not> ?rej \<Longrightarrow> handle_click a b s \<noteq> Inr (s, [])"
  proof
    assume nr: "\<not> ?rej" and h: "handle_click a b s = Inr (s, [])"
    then have "find_paths 0 (end_set s ?gp) = Inr (s, [])" using n by simp
    then have "same_frame (end_set s ?gp) s" by (rule find_paths_frame)
    then have "end_selected s" by (simp add: same_frame_def end_set_def)
    then show False using nr by simp
  qed
  show ?thesis using r n c unfolding end_set_def by blast
qed

theorem C8_witness:
  "start_selected wall_click_state \<and>
   (handle_click 50 10 wall_click_state = Inr (wall_click_state, []) \<longleftrightarrow>
      \<not> in_bounds (screen_to_grid 50 10) \<or>
      grid wall_click_state (screen_to_grid 50 10) = CELL_WALL \<or>
      screen_to_grid 50 10 = start wall_click_state \<or> end_selected wall_click_state \<or>
      paths_found_and_drawn wall_click_state)"
proof -
  have 1: "start_selected wall_click_state" by (simp add: wall_click_state_def)
  show ?thesis using C8_end_designation[OF 1, of 50 10] 1 by blast
qed

text \<open>Claim C10: in every state reachable through clicks and the two reset keys, the cells of
  the designated Start and End carry no rank label. When a click of such a state designates
  End and enters the loop over the K paths, the same holds at the head of every pass of the
  loop, the source is a valid position there, and the search takes the branch past the test
  of the source.\<close>

theorem C10_endpoints_unranked:
  assumes "reachable s"
  shows "(start_selected s \<longrightarrow> grid_path_type s (start s) = CELL_EMPTY) \<and>
         (end_selected s \<longrightarrow> grid_path_type s (end_pt s) = CELL_EMPTY) \<and>
         (\<forall>a b. start_selected s \<and> handle_click a b s \<noteq> Inr (s, []) \<longrightarrow>
            handle_click a b s =
              find_paths 0 (s\<lparr>end_pt := screen_to_grid a b,
                               grid := (grid s)(screen_to_grid a b := CELL_END),
                               end_selected := True, paths_found_and_drawn := True\<rparr>) \<and>
            (\<forall>i s2. loop_head (s\<lparr>end_pt := screen_to_grid a b,
                                   grid := (grid s)(screen_to_grid a b := CELL_END),
                                   end_selected := True, paths_found_and_drawn := True\<rparr>) i s2 \<longrightarrow>
               grid_path_type s2 (start s2) = CELL_EMPTY \<and>
               grid_path_type s2 (end_pt s2) = CELL_EMPTY \<and>
               is_valid_position s2 (px (start s2)) (py (start s2)) \<and>
               dijkstra_find_path s2 = run_search s2))"
proof -
  have inv: "reach_inv s" using assms by (rule reachable_inv)
  have 1: "start_selected s \<longrightarrow> grid_path_type s (start s) = CELL_EMPTY"
    and 2: "end_selected s \<longrightarrow> grid_path_type s (end_pt s) = CELL_EMPTY"
    using inv by (auto simp: reach_inv_def)
  have 3: "\<forall>a b. start_selected s \<and> handle_click a b s \<noteq> Inr (s, []) \<longrightarrow>
            handle_click a b s = find_paths 0 (end_set s (screen_to_grid a b)) \<and>
            (\<forall>i s2. loop_head (end_set s (screen_to_grid a b)) i s2 \<longrightarrow>
               grid_path_type s2 (start s2) = CELL_EMPTY \<and>
               grid_path_type s2 (end_pt s2) = CELL_EMPTY \<and>
               is_valid_position s2 (px (start s2)) (py (start s2)) \<and>
               dijkstra_find_path s2 = run_search s2)"
  proof (intro allI impI)
    fix a b
    let ?gp = "screen_to_grid a b"
    assume h: "start_selected s \<and> handle_click a b s \<noteq> Inr (s, [])"
    then have c: "\<not> click_rejected s ?gp" "\<not> end_selected s" "?gp \<noteq> start s"
      and e: "handle_click a b s = find_paths 0 (end_set s ?gp)"
      unfolding handle_click_unfold Let_def by (auto split: if_splits)
    have ib: "in_bounds ?gp" using c(1) by (simp add: click_rejected_def)
    note v = end_set_valid[OF inv conjunct1[OF h] c(2,3) ib]
    have "\<forall>i s2. loop_head (end_set s ?gp) i s2 \<longrightarrow>
               grid_path_type s2 (start s2) = CELL_EMPTY \<and>
               grid_path_type s2 (end_pt s2) = CELL_EMPTY \<and>
               is_valid_position s2 (px (start s2)) (py (start s2)) \<and>
               dijkstra_find_path s2 = run_search s2"
    proof (intro allI impI)
      fix i s2 assume "loop_head (end_set s ?gp) i s2"
      then have f: "same_frame (end_set s ?gp) s2" by (rule loop_head_frame)
      have vs: "is_valid_position s2 (px (start s2)) (py (start s2))"
        using f v(1) by (rule same_frame_valid)
      have "grid_path_type s2 (end_pt s2) = CELL_EMPTY"
        using f v(3) by (simp add: same_frame_def)
      then show "grid_path_type s2 (start s2) = CELL_EMPTY \<and>
               grid_path_type s2 (end_pt s2) = CELL_EMPTY \<and>
               is_valid_position s2 (px (start s2)) (py (start s2)) \<and>
               dijkstra_find_path s2 = run_search s2"
        using vs find_path_valid_start(1)[OF vs] by (simp add: is_valid_position_iff)
    qed
    then show "handle_click a b s = find_paths 0 (end_set s ?gp) \<and>
            (\<forall>i s2. loop_head (end_set s ?gp) i s2 \<longrightarrow>
               grid_path_type s2 (start s2) = CELL_EMPTY \<and>
               grid_path_type s2 (end_pt s2) = CELL_EMPTY \<and>
               is_valid_position s2 (px (start s2)) (py (start s2)) \<and>
               dijkstra_find_path s2 = run_search s2)"
      using e by simp
  qed
  show ?thesis using 1 2 3 unfolding end_set_def by blast
qed

theorem C10_witness:
  "reachable corridor_first \<and> start_selected corridor_first \<and>
   handle_click 90 10 corridor_first \<noteq> Inr (corridor_first, []) \<and>
   (\<exists>s2. loop_head corridor_loop 1 s2 \<and>
      grid_path_type s2 (mk_point 1 0) = CELL_PATH_1 \<and>
      grid_path_type s2 (start s2) = CELL_EMPTY \<and>
      grid_path_type s2 (end_pt s2) = CELL_EMPTY \<and>
      is_valid_position s2 (px (start s2)) (py (start s2)) \<and>
      dijkstra_find_path s2 = run_search s2) \<and>
   (\<exists>s' evs. handle_click 90 10 corridor_first = Inr (s', evs) \<and> reachable s' \<and>
      start_selected s' \<and> end_selected s' \<and>
      grid_path_type s' (mk_point 1 0) = CELL_PATH_1 \<and>
      grid_path_type s' (mk_point 1 1) = CELL_PATH_2 \<and>
      grid_path_type s' (start s') = CELL_EMPTY \<and>
      grid_path_type s' (end_pt s') = CELL_EMPTY)"
proof -
  have c: "handle_click 10 10 (initialize_grid corridor_walls boot_state) = Inr (corridor_first, [])"
    unfolding handle_click_unfold Let_def screen_to_grid_10_10
    by (simp add: corridor_first_def corridor_walls_def click_rejected_def initialize_grid_def
        boot_state_def in_bounds_def GRID_WIDTH_def GRID_HEIGHT_def mk_point_def)
  have r: "reachable corridor_first"
    using reach_click[OF reach_boot c] .
  have s: "start_selected corridor_first" by (simp add: corridor_first_def)
  have lp: "corridor_first\<lparr>end_pt := screen_to_grid 90 10,
                grid := (grid corridor_first)(screen_to_grid 90 10 := CELL_END),
                end_selected := True, paths_found_and_drawn := True\<rparr> = corridor_loop"
    by (simp add: corridor_loop_def screen_to_grid_90_10)
  have e: "handle_click 90 10 corridor_first = find_paths 0 corridor_loop"
    unfolding handle_click_unfold Let_def screen_to_grid_90_10 corridor_loop_def end_set_def
    by (simp add: corridor_first_def corridor_walls_def click_rejected_def initialize_grid_def
        boot_state_def in_bounds_def GRID_WIDTH_def GRID_HEIGHT_def mk_point_def)
  obtain s' evs where f: "find_paths 0 corridor_loop = Inr (s', evs)"
    using corridor_final by (cases "find_paths 0 corridor_loop") auto
  have m: "grid_path_type s' (mk_point 1 0) = CELL_PATH_1"
    "grid_path_type s' (mk_point 1 1) = CELL_PATH_2"
    using corridor_final f by simp_all
  have fr: "same_frame corridor_loop s'" using f by (rule find_paths_frame)
  then have sel: "start_selected s'" "end_selected s'"
    by (simp_all add: same_frame_def corridor_loop_def corridor_first_def)
  have n: "handle_click 90 10 corridor_first \<noteq> Inr (corridor_first, [])"
  proof
    assume "handle_click 90 10 corridor_first = Inr (corridor_first, [])"
    then have "s' = corridor_first" using e f by simp
    then have "end_selected corridor_first" using sel by simp
    then show False by (simp add: corridor_first_def initialize_grid_def)
  qed
  have r': "reachable s'" using r e f by (intro reach_click[OF r, of 90 10 s' evs]) simp
  obtain s2 where p: "path_iteration 0 corridor_loop = Inr (s2, PathFound 1 corridor_path1)"
    and m2: "grid_path_type s2 (mk_point 1 0) = CELL_PATH_1"
    using corridor_pass by (cases "path_iteration 0 corridor_loop") auto
  have k: "0 < K_PATHS" by (simp add: K_PATHS_def)
  have l: "loop_head corridor_loop (Suc 0) s2"
    using loop_enter k p by (rule loop_next)
  have at_loop: "grid_path_type s2 (start s2) = CELL_EMPTY \<and>
      grid_path_type s2 (end_pt s2) = CELL_EMPTY \<and>
      is_valid_position s2 (px (start s2)) (py (start s2)) \<and>
      dijkstra_find_path s2 = run_search s2"
    using C10_endpoints_unranked[OF r, THEN conjunct2, THEN conjunct2,
        THEN spec[where x="90::int"], THEN spec[where x="10::int"], THEN mp, OF conjI[OF s n],
        THEN conjunct2, unfolded lp, THEN spec[where x="Suc 0"], THEN spec[where x=s2],
        THEN mp, OF l] .
  have at_end: "grid_path_type s' (start s') = CELL_EMPTY"
    "grid_path_type s' (end_pt s') = CELL_EMPTY"
    using C10_endpoints_unranked[OF r'] sel by blast+
  have 1: "\<exists>s2. loop_head corridor_loop 1 s2 \<and>
      grid_path_type s2 (mk_point 1 0) = CELL_PATH_1 \<and>
      grid_path_type s2 (start s2) = CELL_EMPTY \<and>
      grid_path_type s2 (end_pt s2) = CELL_EMPTY \<and>
      is_valid_position s2 (px (start s2)) (py (start s2)) \<and>
      dijkstra_find_path s2 = run_search s2"
    using l m2 at_loop by (intro exI[of _ s2]) simp
  have 2: "\<exists>s' evs. handle_click 90 10 corridor_first = Inr (s', evs) \<and> reachable s' \<and>
      start_selected s' \<and> end_selected s' \<and>
      grid_path_type s' (mk_point 1 0) = CELL_PATH_1 \<and>
      grid_path_type s' (mk_point 1 1) = CELL_PATH_2 \<and>
      grid_path_type s' (start s') = CELL_EMPTY \<and>
      grid_path_type s' (end_pt s') = CELL_EMPTY"
    using e f r' sel m at_end by (intro exI[of _ s'] exI[of _ evs]) simp
  show ?thesis using r s n 1 2 by blast
qed

section \<open>The frontier array\<close>

lemma step_relation_inv:
  shows "at_head g s \<Longrightarrow> head_inv g s"
    and "expanding g c k s \<Longrightarrow> mid_inv g c k s \<and> c \<noteq> end_pt g"
proof (induction rule: at_head_expanding.inducts)
  case (head_init g)
  then show ?case by (rule init_head_inv)
next
  case (head_stale g s c)
  then have False using pop_mid_inv(3)[OF head_stale.IH head_stale.hyps(2)] by simp
  then show ?case ..
next
  case (expand_pop g s c)
  have "mid_inv g c 0 (popped s)"
    using pop_mid_inv(1)[OF expand_pop.IH expand_pop.hyps(2)] expand_pop.hyps(3) by simp
  then show ?case using expand_pop.hyps(3,6) by (simp add: popped_def)
next
  case (expand_step g c k s s')
  then show ?case using relax_mid_inv by blast
next
  case (head_next g c s)
  then show ?case using mid_head_inv by blast
qed

text \<open>The recursion of \<open>dijkstra_loop\<close> runs through the states of the step relation.\<close>

lemma explore_expanding:
  assumes "expanding g c 0 s" "explore g c [0..<4] s = Inr s'"
  shows "expanding g c 4 s'"
proof -
  have u: "[0..<4] = [0, Suc 0, 2, 3]" by (simp add: upt_rec)
  from assms(2) obtain s1 s2 s3 where
    r: "relax g c 0 s = Inr s1" "relax g c (Suc 0) s1 = Inr s2" "relax g c 2 s2 = Inr s3"
       "relax g c 3 s3 = Inr s'"
    unfolding u by (auto split: sum.splits)
  have "expanding g c (Suc 0) s1" using assms(1) _ r(1) by (rule expand_step) simp
  then have "expanding g c (Suc (Suc 0)) s2" using _ r(2) by (rule expand_step) simp
  then have "expanding g c 2 s2" by (simp add: numeral_2_eq_2)
  then have "expanding g c (Suc 2) s3" using _ r(3) by (rule expand_step) simp
  then have "expanding g c 3 s3" by (simp add: numeral_3_eq_3)
  then have "expanding g c (Suc 3) s'" using _ r(4) by (rule expand_step) simp
  then show ?thesis by (simp add: eval_nat_numeral)
qed

lemma dijkstra_loop_at_head:
  "at_head g s \<Longrightarrow> dijkstra_loop g s = Inr (res, s') \<Longrightarrow>
     (res = None \<longrightarrow> at_head g s') \<and> (res \<noteq> None \<longrightarrow> (\<exists>s0. at_head g s0 \<and> s' = popped s0))"
proof (induction g s rule: dijkstra_loop.induct)
  case (1 g s)
  note hi = step_relation_inv(1)[OF "1.prems"(1)]
  show ?case
  proof (cases "nodes s = []")
    case True
    then have "dijkstra_loop g s = Inr (None, s)" by (subst dijkstra_loop.simps) simp
    then show ?thesis using "1.prems" by simp
  next
    case ne: False
    define cur where "cur = nodes s ! find_min_index (nodes s)"
    note p = pop_mid_inv[OF hi ne, folded cur_def]
    note st = dijkstra_loop_step[OF hi ne, folded cur_def]
    show ?thesis
    proof (cases "pos cur = end_pt g")
      case True
      then show ?thesis using st "1.prems" by auto
    next
      case ce: False
      have "expanding g (pos cur) 0
          (s\<lparr>nodes := remove_node (nodes s) (find_min_index (nodes s)),
             visited := (visited s)(pos cur := True)\<rparr>)"
        using "1.prems"(1) ne cur_def[THEN arg_cong[where f=pos]] p(2,3) ce by (rule expand_pop)
      then have ex: "expanding g (pos cur) 0 (popped s)"
        by (simp add: popped_def cur_def)
      show ?thesis
      proof (cases "explore g (pos cur) [0..<4] (popped s)")
        case (Inl e)
        then show ?thesis using st ce "1.prems"(2) by simp
      next
        case (Inr s2)
        have h: "at_head g s2" using explore_expanding[OF ex Inr] by (rule head_next)
        have eq: "\<not> (px (pos cur) = px (end_pt g) \<and> py (pos cur) = py (end_pt g))"
          using ce point_eq_iff by blast
        have l: "dijkstra_loop g s2 = Inr (res, s')" using st ce Inr "1.prems"(2) by simp
        show ?thesis
          using "1.IH"(2)[OF ne refl refl refl refl _ _ refl _ _ h l, folded cur_def] p(2,3) eq Inr
          by (simp add: popped_def cur_def)
      qed
    qed
  qed
qed

lemma queue_ok_length:
  assumes "queue_ok s"
  shows "length (nodes s) \<le> CAPACITY"
proof -
  have "distinct (map pos (nodes s))" using assms by (simp add: queue_ok_def)
  then have "card (pos ` set (nodes s)) = length (nodes s)"
    by (metis distinct_card length_map set_map)
  moreover have "pos ` set (nodes s) \<subseteq> {p. in_bounds p}"
    using assms by (auto simp: queue_ok_def)
  then have "card (pos ` set (nodes s)) \<le> CAPACITY"
    using card_mono[OF finite_in_bounds] by (simp add: card_in_bounds)
  ultimately show ?thesis by simp
qed

lemma find_path_no_overflow: "dijkstra_find_path g \<noteq> Inl NodesOverflow"
proof
  assume a: "dijkstra_find_path g = Inl NodesOverflow"
  then have "in_bounds (start g)" "run_search g = Inl NodesOverflow"
    using find_path_cases[of g] by auto
  then show False using run_search_post[of g] by (simp add: search_post_def)
qed

text \<open>Claim C9: the search never writes \<^verbatim>\<open>nodes[node_count++]\<close> outside the array. In every
  state of the neighbour loop the frontier holds each cell at most once and at most
  \<open>CAPACITY\<close> entries; a pass of the neighbour loop never changes a distance that has been
  set; it pushes a cell only when the distance of that cell has never been set, so that the
  cell is neither visited nor in the frontier, and the push sets that distance; the frontier
  stays within \<open>CAPACITY\<close> entries.\<close>

theorem C9_frontier_within_capacity:
  "dijkstra_find_path g \<noteq> Inl NodesOverflow \<and>
   (expanding g c k s \<and> k < 4 \<longrightarrow>
      distinct (map pos (nodes s)) \<and> length (nodes s) \<le> CAPACITY \<and>
      relax g c k s \<noteq> Inl NodesOverflow \<and>
      (\<forall>s'. relax g c k s = Inr s' \<longrightarrow>
         (\<forall>p. dist s p \<noteq> INT_MAX \<longrightarrow> dist s' p = dist s p) \<and>
         (nodes s' = nodes s \<or>
          (\<exists>n. dist s n = INT_MAX \<and> \<not> visited s n \<and> n \<notin> pos ` set (nodes s) \<and>
               dist s' n \<noteq> INT_MAX \<and>
               nodes s' = nodes s @ [\<lparr>pos = n, cost = dist s' n\<rparr>])) \<and>
         length (nodes s') \<le> CAPACITY))"
proof (intro conjI impI)
  show "dijkstra_find_path g \<noteq> Inl NodesOverflow" by (rule find_path_no_overflow)
next
  assume a: "expanding g c k s \<and> k < 4"
  then have inv: "mid_inv g c k s" and ce: "c \<noteq> end_pt g" and k: "k < 4"
    using step_relation_inv(2)[of g c k s] by auto
  have q: "queue_ok s" and d: "disc_ok s" and om: "order_mid c s"
    using inv by (auto simp: mid_inv_def)
  show "distinct (map pos (nodes s))" using q by (simp add: queue_ok_def)
  show "length (nodes s) \<le> CAPACITY" using q by (rule queue_ok_length)
  show "relax g c k s \<noteq> Inl NodesOverflow" using inv by (rule relax_no_overflow)
  show "\<forall>s'. relax g c k s = Inr s' \<longrightarrow>
         (\<forall>p. dist s p \<noteq> INT_MAX \<longrightarrow> dist s' p = dist s p) \<and>
         (nodes s' = nodes s \<or>
          (\<exists>n. dist s n = INT_MAX \<and> \<not> visited s n \<and> n \<notin> pos ` set (nodes s) \<and>
               dist s' n \<noteq> INT_MAX \<and>
               nodes s' = nodes s @ [\<lparr>pos = n, cost = dist s' n\<rparr>])) \<and>
         length (nodes s') \<le> CAPACITY"
  proof (intro allI impI)
    fix s' assume r: "relax g c k s = Inr s'"
    have "mid_inv g c (Suc k) s'" using inv ce k r by (rule relax_mid_inv)
    then have len: "length (nodes s') \<le> CAPACITY"
      by (intro queue_ok_length) (simp add: mid_inv_def)
    from r show "(\<forall>p. dist s p \<noteq> INT_MAX \<longrightarrow> dist s' p = dist s p) \<and>
         (nodes s' = nodes s \<or>
          (\<exists>n. dist s n = INT_MAX \<and> \<not> visited s n \<and> n \<notin> pos ` set (nodes s) \<and>
               dist s' n \<noteq> INT_MAX \<and>
               nodes s' = nodes s @ [\<lparr>pos = n, cost = dist s' n\<rparr>])) \<and>
         length (nodes s') \<le> CAPACITY"
    proof (cases rule: relax_cases)
      case skip
      then show ?thesis using len by simp
    next
      case seen
      then show ?thesis using len by simp
    next
      case nolower
      then show ?thesis using len by simp
    next
      case pushed
      let ?n = "nb c k"
      have nd: "dist s ?n = INT_MAX"
        using pushed_undiscovered[OF q d om pushed(2,3)] by (simp add: discovered_def)
      have ne: "dist s c + 1 \<noteq> INT_MAX" using mid_discovered_c(2)[OF inv] by simp
      have 1: "\<forall>p. dist s p \<noteq> INT_MAX \<longrightarrow> dist s' p = dist s p"
        using nd by (auto simp: pushed(5))
      have nq: "?n \<notin> pos ` set (nodes s)"
        using nd d by (auto simp: disc_ok_def discovered_def)
      have 2: "dist s ?n = INT_MAX \<and> \<not> visited s ?n \<and> ?n \<notin> pos ` set (nodes s) \<and>
               dist s' ?n \<noteq> INT_MAX \<and>
               nodes s' = nodes s @ [\<lparr>pos = ?n, cost = dist s' ?n\<rparr>]"
        using nd ne nq pushed(2) by (simp add: pushed(5))
      show ?thesis using 1 2 len by blast
    qed
  qed
qed

definition demo_popped :: Search where
  "demo_popped =
     (init_search demo_state)
       \<lparr>nodes := remove_node (nodes (init_search demo_state))
                   (find_min_index (nodes (init_search demo_state))),
        visited := (visited (init_search demo_state))(mk_point 0 0 := True)\<rparr>"

lemma demo_popped_push:
  "(case relax demo_state (mk_point 0 0) (Suc 0) demo_popped of
      Inl e \<Rightarrow> False
    | Inr s' \<Rightarrow> nodes s' = [\<lparr>pos = mk_point 1 0, cost = 1\<rparr>])"
  by code_simp

theorem C9_witness:
  "expanding demo_state (mk_point 0 0) (Suc 0) demo_popped \<and> Suc 0 < 4 \<and>
   nodes demo_popped = [] \<and>
   relax demo_state (mk_point 0 0) (Suc 0) demo_popped \<noteq> Inl NodesOverflow \<and>
   (\<exists>s'. relax demo_state (mk_point 0 0) (Suc 0) demo_popped = Inr s' \<and>
      nodes s' = [\<lparr>pos = mk_point 1 0, cost = 1\<rparr>] \<and>
      dist demo_popped (mk_point 1 0) = INT_MAX \<and> dist s' (mk_point 1 0) = 1 \<and>
      dist s' (mk_point 0 0) = dist demo_popped (mk_point 0 0) \<and>
      length (nodes s') \<le> CAPACITY)"
proof -
  have ib: "in_bounds (start demo_state)"
    by (simp add: demo_state_def in_bounds_def GRID_WIDTH_def GRID_HEIGHT_def)
  have e0: "expanding demo_state (mk_point 0 0) 0 demo_popped"
    unfolding demo_popped_def
    apply (rule expand_pop[OF head_init[OF ib]])
    using ib by (simp_all add: init_search_def find_min_index_def demo_state_def mk_point_def)
  have em: "nodes demo_popped = []"
    by (simp add: demo_popped_def init_search_def find_min_index_def remove_node_def)
  have r0: "relax demo_state (mk_point 0 0) 0 demo_popped = Inr demo_popped"
    unfolding relax_unfold
    by (simp add: nb_def dx_def dy_def open_cell_def in_bounds_def demo_state_def mk_point_def)
  have e1: "expanding demo_state (mk_point 0 0) (Suc 0) demo_popped"
    using e0 _ r0 by (rule expand_step) simp
  have k: "Suc 0 < 4" by simp
  note t = C9_frontier_within_capacity[of demo_state "mk_point 0 0" "Suc 0" demo_popped]
  have no: "relax demo_state (mk_point 0 0) (Suc 0) demo_popped \<noteq> Inl NodesOverflow"
    using t e1 k by blast
  obtain s' where r1: "relax demo_state (mk_point 0 0) (Suc 0) demo_popped = Inr s'"
    and n1: "nodes s' = [\<lparr>pos = mk_point 1 0, cost = 1\<rparr>]"
    using demo_popped_push
    by (cases "relax demo_state (mk_point 0 0) (Suc 0) demo_popped") auto
  have keep: "\<forall>p. dist demo_popped p \<noteq> INT_MAX \<longrightarrow> dist s' p = dist demo_popped p"
    and pushed: "nodes s' = nodes demo_popped \<or>
      (\<exists>n. dist demo_popped n = INT_MAX \<and> \<not> visited demo_popped n \<and>
           n \<notin> pos ` set (nodes demo_popped) \<and> dist s' n \<noteq> INT_MAX \<and>
           nodes s' = nodes demo_popped @ [\<lparr>pos = n, cost = dist s' n\<rparr>])"
    and len: "length (nodes s') \<le> CAPACITY"
    using t e1 k r1 by blast+
  from pushed obtain n where n: "dist demo_popped n = INT_MAX"
    "nodes s' = [\<lparr>pos = n, cost = dist s' n\<rparr>]"
    using n1 em by auto
  then have nn: "n = mk_point 1 0" "dist s' n = 1" using n1 by simp_all
  have d0: "dist demo_popped (mk_point 0 0) \<noteq> INT_MAX"
    by (simp add: demo_popped_def init_search_def demo_state_def INT_MAX_def)
  have 1: "\<exists>s'. relax demo_state (mk_point 0 0) (Suc 0) demo_popped = Inr s' \<and>
      nodes s' = [\<lparr>pos = mk_point 1 0, cost = 1\<rparr>] \<and>
      dist demo_popped (mk_point 1 0) = INT_MAX \<and> dist s' (mk_point 1 0) = 1 \<and>
      dist s' (mk_point 0 0) = dist demo_popped (mk_point 0 0) \<and>
      length (nodes s') \<le> CAPACITY"
    using r1 n1 n(1) nn keep d0 len by (intro exI[of _ s']) simp
  show ?thesis using e1 k em no 1 by blast
qed

end
